theory Spec2Isabelle
  imports Main
begin

section \<open>LinearVestingVault: data model\<close>

text \<open>
  The contract \<^verbatim>\<open>src/contracts/LinearVestingVault.sol\<close> is embedded as pure functions
  over an explicit contract state. A \<^verbatim>\<open>uint256\<close> is a natural number that the
  checked arithmetic keeps at most \<open>2^256 - 1\<close>; an \<^verbatim>\<open>address\<close> is a natural
  number, the zero address being \<open>0\<close>.
\<close>

type_synonym address = nat

definition MAX_UINT256 :: nat where
  "MAX_UINT256 = 2 ^ 256 - 1"

datatype error =
    NotOwner
  | AllowanceInsufficient
  | ZeroAddress
  | CliffExceedsDuration
  | BadInitialPct
  | IndexOutOfRange
  | NothingToRelease
  | Overflow
  | Underflow
  | DivisionByZero
  | TransferFailed

text \<open>The outcome of a call: it runs to its end, or it reverts at a \<^verbatim>\<open>require\<close>,
  a failed checked operation or a failed token call.\<close>

datatype status = Success | Reverted error

text \<open>\<^verbatim>\<open>struct Allocation\<close>, lines 31 to 38.\<close>

record Allocation =
  start :: nat
  cliff :: nat
  duration :: nat
  total :: nat
  claimed :: nat
  initial :: nat

text \<open>
  Modelled from the spec: the ERC20 token (OpenZeppelin's \<^verbatim>\<open>ERC20\<close> and
  \<^verbatim>\<open>SafeERC20\<close> are imported by the contract and are not part of the sources).
  Section 6 of the specification gives its interface: \<^verbatim>\<open>allowance(owner, spender)\<close>,
  \<^verbatim>\<open>transferFrom(owner, vault, amount)\<close> and \<^verbatim>\<open>transfer(vault, recipient, amount)\<close>,
  each of the two transfers succeeding or failing. The ledger keeps one balance for
  every address, the vault's own among them, and the allowance every holder has given
  to every spender; a transfer fails when the balance or the allowance it draws on is
  too small, and otherwise takes the amount from the source and then adds it to the
  destination, so a transfer from an address to itself leaves its balance as it was.
\<close>

record Token =
  balanceOf :: "address \<Rightarrow> nat"
  allowance :: "address \<Rightarrow> address \<Rightarrow> nat"

definition moved :: "address \<Rightarrow> address \<Rightarrow> nat \<Rightarrow> (address \<Rightarrow> nat) \<Rightarrow> address \<Rightarrow> nat" where
  "moved src dst amount bal =
     (let bal1 = bal(src := bal src - amount) in bal1(dst := bal1 dst + amount))"

definition token_transferFrom ::
  "address \<Rightarrow> address \<Rightarrow> address \<Rightarrow> nat \<Rightarrow> Token \<Rightarrow> Token option" where
  "token_transferFrom spender src dst amount t =
     (if allowance t src spender < amount \<or> balanceOf t src < amount then None
      else Some (t\<lparr>balanceOf := moved src dst amount (balanceOf t),
                   allowance := (allowance t)
                     (src := (allowance t src)(spender := allowance t src spender - amount))\<rparr>))"

definition token_transfer :: "address \<Rightarrow> address \<Rightarrow> nat \<Rightarrow> Token \<Rightarrow> Token option" where
  "token_transfer src dst amount t =
     (if balanceOf t src < amount then None
      else Some (t\<lparr>balanceOf := moved src dst amount (balanceOf t)\<rparr>))"

text \<open>The three events of the contract, lines 20 to 29.\<close>

datatype event =
    Issued address nat nat nat nat
  | Released address nat nat
  | Revoked address nat nat

text \<open>
  An external call to the token, recorded with the allocation storage as it stands at
  the moment of the call: what the token contract, or anything it calls back into,
  observes.
\<close>

datatype ext_call =
    CallTransferFrom address nat "address \<Rightarrow> Allocation list"
  | CallTransfer address nat "address \<Rightarrow> Allocation list"

text \<open>
  The contract state: the owner of \<^verbatim>\<open>Ownable\<close>, the contract's own address
  \<^verbatim>\<open>address(this)\<close>, the mapping
  \<^verbatim>\<open>allocations\<close> (line 41; a Solidity mapping is total, every key that was never
  written holds the empty array), the token, and the two logs: the external calls made
  and the events emitted, in program order.
\<close>

record Vault =
  owner :: address
  self :: address
  allocations :: "address \<Rightarrow> Allocation list"
  token :: Token
  calls :: "ext_call list"
  events :: "event list"

text \<open>The balance the vault has in custody: the token's balance of the contract's
  own address.\<close>

definition custody :: "Vault \<Rightarrow> nat" where
  "custody s = balanceOf (token s) (self s)"

section \<open>Checked arithmetic\<close>

text \<open>\<^verbatim>\<open>SafeMath\<close> under Solidity 0.8: \<^verbatim>\<open>add\<close>, \<^verbatim>\<open>sub\<close> and \<^verbatim>\<open>mul\<close> revert when
  the result leaves the range of \<^verbatim>\<open>uint256\<close>, \<^verbatim>\<open>div\<close> reverts on a zero divisor.\<close>

definition add_uint :: "nat \<Rightarrow> nat \<Rightarrow> error + nat" where
  "add_uint a b = (if a + b \<le> MAX_UINT256 then Inr (a + b) else Inl Overflow)"

definition sub_uint :: "nat \<Rightarrow> nat \<Rightarrow> error + nat" where
  "sub_uint a b = (if b \<le> a then Inr (a - b) else Inl Underflow)"

definition mul_uint :: "nat \<Rightarrow> nat \<Rightarrow> error + nat" where
  "mul_uint a b = (if a * b \<le> MAX_UINT256 then Inr (a * b) else Inl Overflow)"

definition div_uint :: "nat \<Rightarrow> nat \<Rightarrow> error + nat" where
  "div_uint a b = (if b = 0 then Inl DivisionByZero else Inr (a div b))"

section \<open>The vesting calculator\<close>

text \<open>
  \<^verbatim>\<open>_vestedAmount\<close>, lines 169 to 192, with \<^verbatim>\<open>block.timestamp\<close> as the argument
  \<open>now\<close>. The named return variable \<^verbatim>\<open>amount\<close> is zero when the third branch
  subtracts it (line 185).
\<close>

definition vestedAmount :: "Allocation \<Rightarrow> nat \<Rightarrow> error + nat" where
  "vestedAmount a now =
     (let amount = 0 in
      case add_uint (start a) (cliff a) of
        Inl e \<Rightarrow> Inl e
      | Inr cliffEnd \<Rightarrow>
          if now < cliffEnd then Inr 0
          else
            (case add_uint (start a) (duration a) of
               Inl e \<Rightarrow> Inl e
             | Inr vestEnd \<Rightarrow>
                 if now \<ge> vestEnd then Inr (total a)
                 else
                   (case sub_uint (total a) (initial a) of
                      Inl e \<Rightarrow> Inl e
                    | Inr r0 \<Rightarrow>
                   (case sub_uint r0 amount of
                      Inl e \<Rightarrow> Inl e
                    | Inr r \<Rightarrow>
                   (case sub_uint now (start a) of
                      Inl e \<Rightarrow> Inl e
                    | Inr elapsed \<Rightarrow>
                   (case mul_uint r elapsed of
                      Inl e \<Rightarrow> Inl e
                    | Inr p \<Rightarrow>
                   (case div_uint p (duration a) of
                      Inl e \<Rightarrow> Inl e
                    | Inr q \<Rightarrow> add_uint (initial a) q)))))))"

text \<open>\<^verbatim>\<open>_releasableAmount\<close>, lines 157 to 163.\<close>

definition releasableAmount :: "Allocation \<Rightarrow> nat \<Rightarrow> error + nat" where
  "releasableAmount a now =
     (case vestedAmount a now of
        Inl e \<Rightarrow> Inl e
      | Inr v \<Rightarrow> sub_uint v (claimed a))"

section \<open>Ledger operations\<close>

text \<open>
  An operation maps the state to a status and the state at the point where it stopped.
  \<^verbatim>\<open>SafeERC20\<close>'s calls revert when the token call fails.
\<close>

definition safeTransferFrom :: "address \<Rightarrow> nat \<Rightarrow> Vault \<Rightarrow> status \<times> Vault" where
  "safeTransferFrom holder amount s =
     (let s1 = s\<lparr>calls := calls s @ [CallTransferFrom holder amount (allocations s)]\<rparr> in
      case token_transferFrom (self s1) holder (self s1) amount (token s1) of
        None \<Rightarrow> (Reverted TransferFailed, s1)
      | Some t \<Rightarrow> (Success, s1\<lparr>token := t\<rparr>))"

definition safeTransfer :: "address \<Rightarrow> nat \<Rightarrow> Vault \<Rightarrow> status \<times> Vault" where
  "safeTransfer recipient amount s =
     (let s1 = s\<lparr>calls := calls s @ [CallTransfer recipient amount (allocations s)]\<rparr> in
      case token_transfer (self s1) recipient amount (token s1) of
        None \<Rightarrow> (Reverted TransferFailed, s1)
      | Some t \<Rightarrow> (Success, s1\<lparr>token := t\<rparr>))"

text \<open>
  \<^verbatim>\<open>issue\<close>, lines 62 to 79. Modelled from the spec: the modifier \<^verbatim>\<open>onlyOwner\<close>
  of OpenZeppelin's \<^verbatim>\<open>Ownable\<close> (not part of the sources), the check that the caller
  is the owner.
\<close>

definition issue ::
  "address \<Rightarrow> address \<Rightarrow> nat \<Rightarrow> nat \<Rightarrow> nat \<Rightarrow> nat \<Rightarrow> nat \<Rightarrow> Vault \<Rightarrow> status \<times> Vault" where
  "issue caller beneficiary amount startAt cl dur initialPct s =
     (if caller \<noteq> owner s then (Reverted NotOwner, s)
      else if \<not> allowance (token s) caller (self s) \<ge> amount
        then (Reverted AllowanceInsufficient, s)
      else if \<not> beneficiary \<noteq> 0 then (Reverted ZeroAddress, s)
      else if \<not> cl \<le> dur then (Reverted CliffExceedsDuration, s)
      else if \<not> initialPct \<le> 100 then (Reverted BadInitialPct, s)
      else
        (case safeTransferFrom caller amount s of
           (Reverted e, s1) \<Rightarrow> (Reverted e, s1)
         | (Success, s1) \<Rightarrow>
             (case mul_uint amount initialPct of
                Inl e \<Rightarrow> (Reverted e, s1)
              | Inr p \<Rightarrow>
                  (case div_uint p 100 of
                     Inl e \<Rightarrow> (Reverted e, s1)
                   | Inr ini \<Rightarrow>
                       (Success,
                        s1\<lparr>allocations := (allocations s1)
                              (beneficiary := allocations s1 beneficiary @
                                 [\<lparr>start = startAt, cliff = cl, duration = dur,
                                   total = amount, claimed = 0, initial = ini\<rparr>]),
                           events := events s1 @ [Issued beneficiary amount startAt cl dur]\<rparr>)))))"

text \<open>\<^verbatim>\<open>revoke\<close>, lines 87 to 105. The index is below the length, so
  \<^verbatim>\<open>length - 1\<close> cannot underflow.\<close>

definition revoke :: "address \<Rightarrow> address \<Rightarrow> nat \<Rightarrow> Vault \<Rightarrow> status \<times> Vault" where
  "revoke caller beneficiary index s =
     (if caller \<noteq> owner s then (Reverted NotOwner, s)
      else
        let len = length (allocations s beneficiary) in
        if \<not> index < len then (Reverted IndexOutOfRange, s)
        else
          let allocation = allocations s beneficiary ! index;
              tot = total allocation
          in case sub_uint tot (claimed allocation) of
               Inl e \<Rightarrow> (Reverted e, s)
             | Inr remainder \<Rightarrow>
                 let xs = allocations s beneficiary;
                     xs1 = (if index \<noteq> len - 1 then xs[index := xs ! (len - 1)] else xs);
                     s1 = s\<lparr>allocations := (allocations s)(beneficiary := butlast xs1)\<rparr>
                 in case safeTransfer caller remainder s1 of
                      (Reverted e, s2) \<Rightarrow> (Reverted e, s2)
                    | (Success, s2) \<Rightarrow>
                        (Success,
                         s2\<lparr>events := events s2 @ [Revoked beneficiary tot remainder]\<rparr>))"

text \<open>\<^verbatim>\<open>release\<close>, lines 112 to 126. The allocation is a storage reference: the event
  reads \<^verbatim>\<open>total\<close> and \<^verbatim>\<open>claimed\<close> from storage after the transfer.\<close>

definition release :: "address \<Rightarrow> nat \<Rightarrow> nat \<Rightarrow> Vault \<Rightarrow> status \<times> Vault" where
  "release beneficiary index now s =
     (if \<not> index < length (allocations s beneficiary) then (Reverted IndexOutOfRange, s)
      else
        let allocation = allocations s beneficiary ! index in
        case releasableAmount allocation now of
          Inl e \<Rightarrow> (Reverted e, s)
        | Inr amount \<Rightarrow>
            if \<not> amount > 0 then (Reverted NothingToRelease, s)
            else
              (case add_uint (claimed allocation) amount of
                 Inl e \<Rightarrow> (Reverted e, s)
               | Inr c \<Rightarrow>
                   let s1 = s\<lparr>allocations := (allocations s)
                                (beneficiary := (allocations s beneficiary)
                                   [index := allocation\<lparr>claimed := c\<rparr>])\<rparr>
                   in case safeTransfer beneficiary amount s1 of
                        (Reverted e, s2) \<Rightarrow> (Reverted e, s2)
                      | (Success, s2) \<Rightarrow>
                          let stored = allocations s2 beneficiary ! index in
                          (case sub_uint (total stored) (claimed stored) of
                             Inl e \<Rightarrow> (Reverted e, s2)
                           | Inr remaining \<Rightarrow>
                               (Success,
                                s2\<lparr>events := events s2 @
                                     [Released beneficiary amount remaining]\<rparr>))))"

text \<open>
  \<^verbatim>\<open>releaseAll\<close>, lines 132 to 136: the loop from index \<open>i\<close> on. The length is read
  again at every iteration; a revert of \<^verbatim>\<open>release\<close> is not caught. The counter stays
  below the array length, so \<^verbatim>\<open>i++\<close> cannot overflow.
\<close>

function releaseAll_from :: "address \<Rightarrow> nat \<Rightarrow> nat \<Rightarrow> Vault \<Rightarrow> status \<times> Vault" where
  "releaseAll_from beneficiary now i s =
     (if i < length (allocations s beneficiary) then
        (case release beneficiary i now s of
           (Reverted e, s1) \<Rightarrow> (Reverted e, s1)
         | (Success, s1) \<Rightarrow> releaseAll_from beneficiary now (i + 1) s1)
      else (Success, s))"
  by pat_completeness auto
termination
proof (relation "measure (\<lambda>(b, now, i, s). length (allocations s b) - i)", goal_cases)
  case 1
  show ?case by simp
next
  case (2 beneficiary now i s p x1)
  then have "release beneficiary i now s = (Success, x1)"
    by simp
  then have "length (allocations x1 beneficiary) = length (allocations s beneficiary)"
    by (auto simp: release_def safeTransfer_def Let_def
        split: if_splits sum.splits prod.splits status.splits option.splits)
  with 2 show ?case
    by simp
qed

definition releaseAll :: "address \<Rightarrow> nat \<Rightarrow> Vault \<Rightarrow> status \<times> Vault" where
  "releaseAll beneficiary now s = releaseAll_from beneficiary now 0 s"

text \<open>The external view \<^verbatim>\<open>releasableAmount\<close>, lines 144 to 151; an index out of range
  panics.\<close>

definition releasableAmountAt :: "address \<Rightarrow> nat \<Rightarrow> nat \<Rightarrow> Vault \<Rightarrow> error + nat" where
  "releasableAmountAt beneficiary index now s =
     (if index < length (allocations s beneficiary)
      then releasableAmount (allocations s beneficiary ! index) now
      else Inl IndexOutOfRange)"

text \<open>
  A transaction: a call that reverts undoes every effect it had, on the contract's
  storage, on the token and on the logs.
\<close>

definition transact :: "(Vault \<Rightarrow> status \<times> Vault) \<Rightarrow> Vault \<Rightarrow> status \<times> Vault" where
  "transact f s =
     (case f s of
        (Success, s') \<Rightarrow> (Success, s')
      | (Reverted e, s') \<Rightarrow> (Reverted e, s))"

text \<open>
  The states of the vault: the empty store, with no token in custody and whatever
  balances and allowances the other holders have, and every state a successful
  \<^verbatim>\<open>issue\<close>, \<^verbatim>\<open>release\<close>, \<^verbatim>\<open>releaseAll\<close> or \<^verbatim>\<open>revoke\<close> leads to. The arguments are
  \<^verbatim>\<open>uint256\<close> values. The owner is the account that deployed the contract
  (\<^verbatim>\<open>Ownable\<close> takes the sender of the constructor call), so it is not the contract
  itself; the beneficiary of an operation is any address, the contract's own included.
\<close>

definition init_vault ::
  "address \<Rightarrow> address \<Rightarrow> (address \<Rightarrow> nat) \<Rightarrow> (address \<Rightarrow> address \<Rightarrow> nat) \<Rightarrow> Vault" where
  "init_vault ow slf bal alw =
     \<lparr>owner = ow, self = slf, allocations = (\<lambda>_. []),
      token = \<lparr>balanceOf = bal(slf := 0), allowance = alw\<rparr>,
      calls = [], events = []\<rparr>"

inductive reachable :: "Vault \<Rightarrow> bool" where
  r_init: "ow \<noteq> slf \<Longrightarrow> reachable (init_vault ow slf bal alw)"
| r_issue: "reachable s \<Longrightarrow> amount \<le> MAX_UINT256 \<Longrightarrow> startAt \<le> MAX_UINT256 \<Longrightarrow>
     cl \<le> MAX_UINT256 \<Longrightarrow> dur \<le> MAX_UINT256 \<Longrightarrow> initialPct \<le> MAX_UINT256 \<Longrightarrow>
     transact (issue caller beneficiary amount startAt cl dur initialPct) s = (Success, s') \<Longrightarrow>
     reachable s'"
| r_release: "reachable s \<Longrightarrow> now \<le> MAX_UINT256 \<Longrightarrow>
     transact (release beneficiary index now) s = (Success, s') \<Longrightarrow> reachable s'"
| r_releaseAll: "reachable s \<Longrightarrow> now \<le> MAX_UINT256 \<Longrightarrow>
     transact (releaseAll beneficiary now) s = (Success, s') \<Longrightarrow> reachable s'"
| r_revoke: "reachable s \<Longrightarrow>
     transact (revoke caller beneficiary index) s = (Success, s') \<Longrightarrow> reachable s'"

section \<open>Accounting notions\<close>

text \<open>
  What the vault owes on a sequence of allocations is the sum of \<open>total - claimed\<close>
  over it; the live beneficiaries are the keys of the mapping that hold a non-empty
  sequence; the liabilities of the vault are what it owes to all of them.
\<close>

definition outstanding :: "Allocation list \<Rightarrow> nat" where
  "outstanding xs = sum_list (map (\<lambda>a. total a - claimed a) xs)"

definition live :: "Vault \<Rightarrow> address set" where
  "live s = {b. allocations s b \<noteq> []}"

definition liabilities :: "Vault \<Rightarrow> nat" where
  "liabilities s = (\<Sum>b\<in>live s. outstanding (allocations s b))"

text \<open>
  The event log keeps what the operations did: the amounts that \<open>release\<close> has paid
  to a given address, and whether an allocation was ever issued to it.
\<close>

fun paid_to :: "address \<Rightarrow> event list \<Rightarrow> nat" where
  "paid_to v [] = 0"
| "paid_to v (Released b amount remaining # es) = (if b = v then amount else 0) + paid_to v es"
| "paid_to v (Issued b amount startAt cl dur # es) = paid_to v es"
| "paid_to v (Revoked b tot remainder # es) = paid_to v es"

fun issued_to :: "address \<Rightarrow> event list \<Rightarrow> bool" where
  "issued_to v [] = False"
| "issued_to v (Issued b amount startAt cl dur # es) = (b = v \<or> issued_to v es)"
| "issued_to v (Released b amount remaining # es) = issued_to v es"
| "issued_to v (Revoked b tot remainder # es) = issued_to v es"

text \<open>
  The invariants: every stored allocation has \<open>claimed \<le> total\<close>; every stored
  \<open>total\<close> is a \<^verbatim>\<open>uint256\<close>; finitely many beneficiaries are live and the balance in
  custody exceeds the liabilities by a given amount, which is 0 in \<open>custody_exact\<close>
  and what \<open>release\<close> has paid to the vault's own address in \<open>custody_ok\<close>; the
  owner is not the vault itself; and a vault that was never issued an allocation
  holds none and was never paid by \<open>release\<close>.
\<close>

definition claimed_ok :: "Vault \<Rightarrow> bool" where
  "claimed_ok s \<longleftrightarrow> (\<forall>b. \<forall>a\<in>set (allocations s b). claimed a \<le> total a)"

definition typed_ok :: "Vault \<Rightarrow> bool" where
  "typed_ok s \<longleftrightarrow> (\<forall>b. \<forall>a\<in>set (allocations s b). total a \<le> MAX_UINT256)"

definition custody_above :: "nat \<Rightarrow> Vault \<Rightarrow> bool" where
  "custody_above k s \<longleftrightarrow> finite (live s) \<and> custody s = liabilities s + k"

definition custody_exact :: "Vault \<Rightarrow> bool" where
  "custody_exact s \<longleftrightarrow> custody_above 0 s"

definition custody_ok :: "Vault \<Rightarrow> bool" where
  "custody_ok s \<longleftrightarrow> custody_above (paid_to (self s) (events s)) s"

definition unissued_ok :: "Vault \<Rightarrow> bool" where
  "unissued_ok s \<longleftrightarrow>
     (\<not> issued_to (self s) (events s) \<longrightarrow>
        allocations s (self s) = [] \<and> paid_to (self s) (events s) = 0)"

definition vault_inv :: "Vault \<Rightarrow> bool" where
  "vault_inv s \<longleftrightarrow>
     claimed_ok s \<and> typed_ok s \<and> custody_ok s \<and> owner s \<noteq> self s \<and> unissued_ok s"

section \<open>The states after a successful operation\<close>

text \<open>
  The state a successful \<open>issue\<close>, \<open>revoke\<close> or \<open>release\<close> ends in, written out field
  by field; \<open>swap_pop\<close> is the removal \<open>revoke\<close> performs on the sequence (lines 96
  and 97). The lemmas \<open>issue_Success\<close>, \<open>revoke_Success\<close> and \<open>release_Success\<close> below
  derive them from the operations.
\<close>

definition issued_state ::
  "address \<Rightarrow> address \<Rightarrow> nat \<Rightarrow> nat \<Rightarrow> nat \<Rightarrow> nat \<Rightarrow> nat \<Rightarrow> Vault \<Rightarrow> Vault" where
  "issued_state caller b amount startAt cl dur initialPct s =
     s\<lparr>allocations := (allocations s)
          (b := allocations s b @
             [\<lparr>start = startAt, cliff = cl, duration = dur, total = amount, claimed = 0,
               initial = amount * initialPct div 100\<rparr>]),
       token := (token s)\<lparr>balanceOf := moved caller (self s) amount (balanceOf (token s)),
                  allowance := (allowance (token s))
                    (caller := (allowance (token s) caller)
                       (self s := allowance (token s) caller (self s) - amount))\<rparr>,
       calls := calls s @ [CallTransferFrom caller amount (allocations s)],
       events := events s @ [Issued b amount startAt cl dur]\<rparr>"

definition swap_pop :: "nat \<Rightarrow> 'a list \<Rightarrow> 'a list" where
  "swap_pop i xs = butlast (if i \<noteq> length xs - 1 then xs[i := xs ! (length xs - 1)] else xs)"

definition revoked_state :: "address \<Rightarrow> address \<Rightarrow> nat \<Rightarrow> Vault \<Rightarrow> Vault" where
  "revoked_state caller b i s =
     (let a = allocations s b ! i;
          remainder = total a - claimed a;
          store = (allocations s)(b := swap_pop i (allocations s b))
      in s\<lparr>allocations := store,
           token := (token s)\<lparr>balanceOf :=
                      moved (self s) caller remainder (balanceOf (token s))\<rparr>,
           calls := calls s @ [CallTransfer caller remainder store],
           events := events s @ [Revoked b (total a) remainder]\<rparr>)"

definition released_state :: "address \<Rightarrow> nat \<Rightarrow> nat \<Rightarrow> Vault \<Rightarrow> Vault" where
  "released_state b i amount s =
     (let a = allocations s b ! i;
          store = (allocations s)(b := (allocations s b)[i := a\<lparr>claimed := claimed a + amount\<rparr>])
      in s\<lparr>allocations := store,
           token := (token s)\<lparr>balanceOf := moved (self s) b amount (balanceOf (token s))\<rparr>,
           calls := calls s @ [CallTransfer b amount store],
           events := events s @ [Released b amount (total a - (claimed a + amount))]\<rparr>)"

text \<open>
  What \<open>release\<close> pays on an allocation at a given time, 0 when the calculator
  reverts; and the state after the indices below \<open>k\<close> of a beneficiary's sequence
  have been released in ascending order, each by what its allocation pays in the
  state \<open>s\<close> the run starts from.
\<close>

definition payout :: "Allocation \<Rightarrow> nat \<Rightarrow> nat" where
  "payout a now = (case releasableAmount a now of Inl e \<Rightarrow> 0 | Inr amount \<Rightarrow> amount)"

definition released_upto :: "address \<Rightarrow> nat \<Rightarrow> Vault \<Rightarrow> nat \<Rightarrow> Vault" where
  "released_upto b now s k =
     foldl (\<lambda>st i. released_state b i (payout (allocations s b ! i) now) st) s [0..<k]"

section \<open>Example data\<close>

text \<open>An allocation with a cliff of 5 seconds in a vesting period of 10, a fifth of it
  in the initial tranche; and one with a duration of 0.\<close>

definition ex_alloc :: Allocation where
  "ex_alloc = \<lparr>start = 1000, cliff = 5, duration = 10, total = 100, claimed = 0, initial = 20\<rparr>"

definition ex_instant_alloc :: Allocation where
  "ex_instant_alloc =
     \<lparr>start = 2, cliff = 0, duration = 0, total = 30, claimed = 0, initial = 0\<rparr>"

text \<open>
  The scenario of the repository's tests: the vault has address 5; the owner, address
  9, holds 1000 tokens and has approved 1000 to the vault; two allocations of 30 are issued to the beneficiary,
  address 7, both over 10 seconds with no cliff and no initial tranche, the first
  from time 2, the second from time 12.
\<close>

definition ex_vault0 :: Vault where
  "ex_vault0 = init_vault 9 5 (\<lambda>_. 1000) (\<lambda>_ _. 1000)"

definition ex_vault1 :: Vault where
  "ex_vault1 = issued_state 9 7 30 2 0 10 0 ex_vault0"

definition ex_vault2 :: Vault where
  "ex_vault2 = issued_state 9 7 30 12 0 10 0 ex_vault1"

text \<open>The vault as its own beneficiary: an allocation of 30 issued to address 5, the
  vault itself, and released in full at time 12.\<close>

definition ex_self1 :: Vault where
  "ex_self1 = issued_state 9 5 30 2 0 10 0 ex_vault0"

definition ex_self2 :: Vault where
  "ex_self2 = released_state 5 0 30 ex_self1"

section \<open>The vesting calculator: closed form and bounds\<close>

text \<open>Every branch and every revert of \<open>vestedAmount\<close>, in the order the code meets
  them.\<close>

lemma vestedAmount_cases:
  "vestedAmount a now =
     (if MAX_UINT256 < start a + cliff a then Inl Overflow
      else if now < start a + cliff a then Inr 0
      else if MAX_UINT256 < start a + duration a then Inl Overflow
      else if start a + duration a \<le> now then Inr (total a)
      else if total a < initial a then Inl Underflow
      else if now < start a then Inl Underflow
      else if MAX_UINT256 < (total a - initial a) * (now - start a) then Inl Overflow
      else if duration a = 0 then Inl DivisionByZero
      else if MAX_UINT256 < initial a + (total a - initial a) * (now - start a) div duration a
        then Inl Overflow
      else Inr (initial a + (total a - initial a) * (now - start a) div duration a))"
  by (simp add: vestedAmount_def add_uint_def sub_uint_def mul_uint_def div_uint_def Let_def
      not_le not_less)

lemma linear_part_le:
  fixes r e d :: nat
  assumes "e < d"
  shows "r * e div d \<le> r"
proof -
  have "r * e \<le> r * d" using assms by simp
  then have "r * e div d \<le> r * d div d" by (rule div_le_mono)
  also have "\<dots> = r" using assms by simp
  finally show ?thesis .
qed

lemma linear_sum_le:
  fixes i t e d :: nat
  assumes "e < d" and "i \<le> t"
  shows "i + (t - i) * e div d \<le> t"
proof -
  have "(t - i) * e div d \<le> t - i" using assms(1) by (rule linear_part_le)
  then have "i + (t - i) * e div d \<le> i + (t - i)" by (rule add_left_mono)
  also have "\<dots> = t" using assms(2) by simp
  finally show ?thesis .
qed

lemma vestedAmount_le_total:
  assumes "vestedAmount a now = Inr v"
  shows "v \<le> total a"
proof -
  have "initial a + (total a - initial a) * (now - start a) div duration a \<le> total a"
    if "initial a \<le> total a" "now < start a + duration a" "start a \<le> now"
  proof -
    from that have "now - start a < duration a" by simp
    from linear_part_le [OF this, of "total a - initial a"] that show ?thesis by simp
  qed
  with assms show ?thesis
    by (auto simp: vestedAmount_cases not_le not_less split: if_splits)
qed

lemma vestedAmount_mono_aux:
  assumes "t1 \<le> t2" "vestedAmount a t1 = Inr v1" "vestedAmount a t2 = Inr v2"
  shows "v1 \<le> v2"
proof (cases "t2 < start a + cliff a")
  case True
  with assms show ?thesis by (auto simp: vestedAmount_cases split: if_splits)
next
  case c2: False
  show ?thesis
  proof (cases "start a + duration a \<le> t2")
    case True
    with c2 assms(3) have "v2 = total a" by (auto simp: vestedAmount_cases split: if_splits)
    with vestedAmount_le_total [OF assms(2)] show ?thesis by simp
  next
    case d2: False
    with c2 assms(3)
    have v2: "v2 = initial a + (total a - initial a) * (t2 - start a) div duration a"
      by (auto simp: vestedAmount_cases split: if_splits)
    show ?thesis
    proof (cases "t1 < start a + cliff a")
      case True
      with assms(2) show ?thesis by (auto simp: vestedAmount_cases split: if_splits)
    next
      case False
      with d2 assms(1,2)
      have v1: "v1 = initial a + (total a - initial a) * (t1 - start a) div duration a"
        by (auto simp: vestedAmount_cases split: if_splits)
      have "(total a - initial a) * (t1 - start a) \<le> (total a - initial a) * (t2 - start a)"
        using assms(1) by (simp add: diff_le_mono)
      then show ?thesis unfolding v1 v2 by (simp add: div_le_mono)
    qed
  qed
qed


section \<open>The vesting calculator: claims\<close>

text \<open>
  C2, as the specification states it: the vested amount at exactly \<open>start + cliff\<close> is
  \<open>initial\<close>. The code measures the linear part from \<open>start\<close>, so at the cliff the share
  \<open>(total - initial) * cliff / duration\<close> of the rest is vested as well: with a cliff of 5
  in a duration of 10, a total of 100 and an initial tranche of 20, the vested amount
  at the cliff is 60, not 20.
\<close>

theorem vestedAmount_at_cliff_counterexample:
  "cliff ex_alloc \<le> duration ex_alloc \<and> initial ex_alloc \<le> total ex_alloc \<and>
   vestedAmount ex_alloc (start ex_alloc + cliff ex_alloc) = Inr 60 \<and>
   vestedAmount ex_alloc (start ex_alloc + cliff ex_alloc) \<noteq> Inr (initial ex_alloc)"
  by (simp add: ex_alloc_def vestedAmount_cases MAX_UINT256_def)

text \<open>
  C2, amended: for an allocation with \<open>cliff \<le> duration\<close> and \<open>initial \<le> total\<close> whose
  end \<open>start + duration\<close> is a \<^verbatim>\<open>uint256\<close>, the vested amount is 0 at every time
  strictly before \<open>start + cliff\<close> and \<open>total\<close> at exactly \<open>start + duration\<close>; at
  exactly \<open>start + cliff\<close> it is \<open>initial + (total - initial) * cliff / duration\<close>
  (floor division; the call reverts when the product overflows) when the cliff is
  shorter than the duration, which is \<open>initial\<close> when the cliff is 0, and it is
  \<open>total\<close> when the cliff equals the duration.
\<close>

theorem vestedAmount_boundaries:
  assumes "cliff a \<le> duration a" and "initial a \<le> total a"
    and "start a + duration a \<le> MAX_UINT256" and "total a \<le> MAX_UINT256"
  shows "(\<forall>now. now < start a + cliff a \<longrightarrow> vestedAmount a now = Inr 0) \<and>
         vestedAmount a (start a + duration a) = Inr (total a) \<and>
         vestedAmount a (start a + cliff a) =
           (if cliff a = duration a then Inr (total a)
            else if MAX_UINT256 < (total a - initial a) * cliff a then Inl Overflow
            else Inr (initial a + (total a - initial a) * cliff a div duration a)) \<and>
         (cliff a = 0 \<and> 0 < duration a \<longrightarrow> vestedAmount a (start a + cliff a) = Inr (initial a))"
proof (intro conjI allI impI)
  fix now
  assume "now < start a + cliff a"
  with assms(1,3) show "vestedAmount a now = Inr 0"
    by (simp add: vestedAmount_cases)
next
  from assms(1,3) show "vestedAmount a (start a + duration a) = Inr (total a)"
    by (simp add: vestedAmount_cases)
next
  show "vestedAmount a (start a + cliff a) =
           (if cliff a = duration a then Inr (total a)
            else if MAX_UINT256 < (total a - initial a) * cliff a then Inl Overflow
            else Inr (initial a + (total a - initial a) * cliff a div duration a))"
  proof (cases "cliff a = duration a")
    case True
    with assms(3) show ?thesis by (simp add: vestedAmount_cases)
  next
    case False
    with assms(1) have lt: "cliff a < duration a" by simp
    from linear_part_le [OF lt, of "total a - initial a"] assms(2,4)
    have "\<not> MAX_UINT256 < initial a + (total a - initial a) * cliff a div duration a"
      by simp
    with lt assms(2,3) show ?thesis by (simp add: vestedAmount_cases)
  qed
next
  assume "cliff a = 0 \<and> 0 < duration a"
  with assms(2,3,4) show "vestedAmount a (start a + cliff a) = Inr (initial a)"
    by (simp add: vestedAmount_cases)
qed

theorem vestedAmount_boundaries_witness:
  "cliff ex_alloc \<le> duration ex_alloc \<and> initial ex_alloc \<le> total ex_alloc \<and>
   start ex_alloc + duration ex_alloc \<le> MAX_UINT256 \<and> total ex_alloc \<le> MAX_UINT256 \<and>
   vestedAmount ex_alloc 1004 = Inr 0 \<and>
   vestedAmount ex_alloc 1010 = Inr 100 \<and>
   vestedAmount ex_alloc 1005 = Inr 60"
  using vestedAmount_boundaries [of ex_alloc]
  by (simp add: ex_alloc_def MAX_UINT256_def)

text \<open>
  C3: for every allocation (with \<open>initial \<le> total\<close>, its end \<open>start + duration\<close> and its
  \<open>total\<close> being \<^verbatim>\<open>uint256\<close> values) and every time \<open>now\<close> with
  \<open>start + cliff \<le> now < start + duration\<close>, the vested amount is
  \<open>initial + (total - initial) * (now - start) / duration\<close> with floor division: the
  elapsed time is measured from \<open>start\<close>, not from the cliff, and divided by the full
  duration. The arithmetic is checked: when the product does not fit in a
  \<^verbatim>\<open>uint256\<close> the call reverts with an overflow instead of returning.
\<close>

theorem vestedAmount_linear:
  assumes "start a + cliff a \<le> now" and "now < start a + duration a"
    and "initial a \<le> total a"
    and "start a + duration a \<le> MAX_UINT256" and "total a \<le> MAX_UINT256"
  shows "vestedAmount a now =
           (if (total a - initial a) * (now - start a) \<le> MAX_UINT256
            then Inr (initial a + (total a - initial a) * (now - start a) div duration a)
            else Inl Overflow)"
proof -
  from assms(1,2) have "now - start a < duration a" by simp
  from linear_part_le [OF this, of "total a - initial a"] assms(3,5)
  have "initial a + (total a - initial a) * (now - start a) div duration a \<le> MAX_UINT256"
    by simp
  with assms show ?thesis
    by (auto simp: vestedAmount_cases not_le not_less)
qed

theorem vestedAmount_linear_witness:
  "start ex_alloc + cliff ex_alloc \<le> 1007 \<and> 1007 < start ex_alloc + duration ex_alloc \<and>
   initial ex_alloc \<le> total ex_alloc \<and>
   start ex_alloc + duration ex_alloc \<le> MAX_UINT256 \<and> total ex_alloc \<le> MAX_UINT256 \<and>
   vestedAmount ex_alloc 1007 = Inr 76"
  using vestedAmount_linear [of ex_alloc 1007]
  by (simp add: ex_alloc_def MAX_UINT256_def)

text \<open>
  C8: for a fixed allocation with \<open>cliff \<le> duration\<close> and \<open>initial \<le> total\<close> the vested
  amount never decreases in time, across the two branch boundaries as well: whenever
  the calculator returns at \<open>t1 \<le> t2\<close>, the first value is at most the second; and it
  returns at every time when \<open>start + duration\<close>, \<open>total\<close> and
  \<open>(total - initial) * duration\<close> are \<^verbatim>\<open>uint256\<close> values.
\<close>

theorem vestedAmount_monotone:
  assumes "cliff a \<le> duration a" and "initial a \<le> total a" and "t1 \<le> t2"
  shows "(\<forall>v1 v2. vestedAmount a t1 = Inr v1 \<longrightarrow> vestedAmount a t2 = Inr v2 \<longrightarrow> v1 \<le> v2) \<and>
         (start a + duration a \<le> MAX_UINT256 \<and> total a \<le> MAX_UINT256 \<and>
          (total a - initial a) * duration a \<le> MAX_UINT256 \<longrightarrow>
          (\<exists>v1 v2. vestedAmount a t1 = Inr v1 \<and> vestedAmount a t2 = Inr v2 \<and> v1 \<le> v2))"
proof (intro conjI allI impI)
  fix v1 v2
  assume "vestedAmount a t1 = Inr v1" "vestedAmount a t2 = Inr v2"
  with assms(3) show "v1 \<le> v2" by (rule vestedAmount_mono_aux)
next
  assume b: "start a + duration a \<le> MAX_UINT256 \<and> total a \<le> MAX_UINT256 \<and>
          (total a - initial a) * duration a \<le> MAX_UINT256"
  have ret: "\<exists>v. vestedAmount a t = Inr v" for t
  proof -
    consider "t < start a + cliff a" | "start a + duration a \<le> t"
      | "start a + cliff a \<le> t" "t < start a + duration a"
      by linarith
    then show ?thesis
    proof cases
      case 1
      with assms(1) b show ?thesis by (simp add: vestedAmount_cases)
    next
      case 2
      with assms(1) b show ?thesis by (simp add: vestedAmount_cases)
    next
      case 3
      then have lt: "t - start a < duration a" by simp
      then have "t - start a \<le> duration a" by simp
      then have "(total a - initial a) * (t - start a) \<le> (total a - initial a) * duration a"
        by (rule mult_le_mono2)
      also from b have "\<dots> \<le> MAX_UINT256" by simp
      finally have p: "\<not> MAX_UINT256 < (total a - initial a) * (t - start a)" by simp
      from b have "total a \<le> MAX_UINT256" by simp
      with linear_sum_le [OF lt assms(2)]
      have "initial a + (total a - initial a) * (t - start a) div duration a \<le> MAX_UINT256"
        by (rule order_trans)
      then have q: "\<not> MAX_UINT256 <
          initial a + (total a - initial a) * (t - start a) div duration a" by simp
      from 3 assms(1,2) b p q show ?thesis by (simp add: vestedAmount_cases)
    qed
  qed
  from ret [of t1] ret [of t2] obtain v1 v2
    where v: "vestedAmount a t1 = Inr v1" "vestedAmount a t2 = Inr v2" by blast
  with assms(3) have "v1 \<le> v2" by (rule vestedAmount_mono_aux)
  with v show "\<exists>v1 v2. vestedAmount a t1 = Inr v1 \<and> vestedAmount a t2 = Inr v2 \<and> v1 \<le> v2"
    by blast
qed

theorem vestedAmount_monotone_witness:
  "cliff ex_alloc \<le> duration ex_alloc \<and> initial ex_alloc \<le> total ex_alloc \<and> (1004::nat) \<le> 1007 \<and>
   start ex_alloc + duration ex_alloc \<le> MAX_UINT256 \<and> total ex_alloc \<le> MAX_UINT256 \<and>
   (total ex_alloc - initial ex_alloc) * duration ex_alloc \<le> MAX_UINT256 \<and>
   (\<exists>v1 v2. vestedAmount ex_alloc 1004 = Inr v1 \<and> vestedAmount ex_alloc 1007 = Inr v2 \<and>
      v1 \<le> v2)"
  using vestedAmount_monotone [of ex_alloc 1004 1007]
  by (simp add: ex_alloc_def MAX_UINT256_def)

section \<open>The operations, characterised\<close>

subsection \<open>Transactions and the conditions of success\<close>

lemma transact_Success [simp]:
  "transact f s = (Success, s') \<longleftrightarrow> f s = (Success, s')"
  by (auto simp: transact_def split: prod.splits status.splits)

lemma transact_Reverted:
  "transact f s = (Reverted e, s') \<longleftrightarrow> (\<exists>s1. f s = (Reverted e, s1)) \<and> s' = s"
  by (auto simp: transact_def split: prod.splits status.splits)

lemma releasableAmount_Inr:
  "releasableAmount a now = Inr amount \<longleftrightarrow>
     (\<exists>v. vestedAmount a now = Inr v \<and> claimed a \<le> v \<and> amount = v - claimed a)"
  by (auto simp: releasableAmount_def sub_uint_def split: sum.splits)

lemma releasableAmount_bound:
  assumes "releasableAmount a now = Inr amount"
  shows "claimed a + amount \<le> total a"
proof -
  from assms obtain v where v: "vestedAmount a now = Inr v" "claimed a \<le> v" "amount = v - claimed a"
    by (auto simp: releasableAmount_Inr)
  from vestedAmount_le_total [OF v(1)] v(2,3) show ?thesis by simp
qed

lemma release_Success:
  "release b i now s = (Success, s') \<longleftrightarrow>
     i < length (allocations s b) \<and>
     (\<exists>amount. releasableAmount (allocations s b ! i) now = Inr amount \<and> 0 < amount \<and>
        claimed (allocations s b ! i) + amount \<le> MAX_UINT256 \<and>
        amount \<le> custody s \<and>
        s' = released_state b i amount s)"
  apply (simp add: release_def safeTransfer_def token_transfer_def Let_def add_uint_def
      sub_uint_def released_state_def custody_def
      split: if_splits sum.splits prod.splits status.splits option.splits)
  apply (auto dest: releasableAmount_bound)
  done

lemma issue_Success:
  "issue caller b amount startAt cl dur initialPct s = (Success, s') \<longleftrightarrow>
     caller = owner s \<and> amount \<le> allowance (token s) caller (self s) \<and> b \<noteq> 0 \<and> cl \<le> dur \<and>
     initialPct \<le> 100 \<and> amount \<le> balanceOf (token s) caller \<and>
     amount * initialPct \<le> MAX_UINT256 \<and>
     s' = issued_state caller b amount startAt cl dur initialPct s"
  by (auto simp: issue_def safeTransferFrom_def token_transferFrom_def Let_def mul_uint_def
      div_uint_def issued_state_def
      split: if_splits sum.splits prod.splits status.splits option.splits)

lemma revoke_Success:
  "revoke caller b i s = (Success, s') \<longleftrightarrow>
     caller = owner s \<and> i < length (allocations s b) \<and>
     claimed (allocations s b ! i) \<le> total (allocations s b ! i) \<and>
     total (allocations s b ! i) - claimed (allocations s b ! i) \<le> custody s \<and>
     s' = revoked_state caller b i s"
  by (auto simp: revoke_def safeTransfer_def token_transfer_def Let_def sub_uint_def
      revoked_state_def swap_pop_def custody_def
      split: if_splits sum.splits prod.splits status.splits option.splits)

subsection \<open>Removal by swap and pop\<close>

lemma swap_pop_length: "i < length xs \<Longrightarrow> length (swap_pop i xs) = length xs - 1"
  by (simp add: swap_pop_def)

lemma swap_pop_snoc:
  "i \<le> length ys \<Longrightarrow>
   swap_pop i (ys @ [l]) = (if i = length ys then ys else ys[i := l])"
  by (auto simp: swap_pop_def list_update_append nth_append)

lemma set_swap_pop: "i < length xs \<Longrightarrow> set (swap_pop i xs) \<subseteq> set xs"
proof (cases xs rule: rev_cases)
  case Nil
  then show ?thesis by (simp add: swap_pop_def)
next
  case (snoc ys l)
  assume "i < length xs"
  with snoc have "i \<le> length ys" by simp
  from swap_pop_snoc [OF this, of l] snoc show ?thesis
    using set_update_subset_insert [of ys i l] by auto
qed

subsection \<open>Sums of what the vault owes\<close>

lemma outstanding_append: "outstanding (xs @ ys) = outstanding xs + outstanding ys"
  by (simp add: outstanding_def)

lemma outstanding_update:
  assumes "i < length xs"
  shows "outstanding (xs[i := y]) + (total (xs ! i) - claimed (xs ! i)) =
         outstanding xs + (total y - claimed y)"
  using assms
proof (induction xs arbitrary: i)
  case Nil
  then show ?case by simp
next
  case (Cons x xs)
  then show ?case
  proof (cases i)
    case 0
    then show ?thesis by (simp add: outstanding_def)
  next
    case (Suc j)
    with Cons.prems have "j < length xs" by simp
    from Cons.IH [OF this] Suc show ?thesis by (simp add: outstanding_def)
  qed
qed

lemma outstanding_swap_pop:
  assumes "i < length xs"
  shows "outstanding (swap_pop i xs) + (total (xs ! i) - claimed (xs ! i)) = outstanding xs"
proof (cases xs rule: rev_cases)
  case Nil
  with assms show ?thesis by simp
next
  case (snoc ys l)
  with assms have le: "i \<le> length ys" by simp
  show ?thesis
  proof (cases "i = length ys")
    case True
    with snoc swap_pop_snoc [OF le, of l] show ?thesis
      by (simp add: outstanding_append outstanding_def)
  next
    case False
    with le have lt: "i < length ys" by simp
    from outstanding_update [OF lt, of l] snoc swap_pop_snoc [OF le, of l] False lt
    show ?thesis
      by (simp add: outstanding_append nth_append) (simp add: outstanding_def)
  qed
qed

lemma outstanding_nth_le:
  "i < length xs \<Longrightarrow> total (xs ! i) - claimed (xs ! i) \<le> outstanding xs"
  using outstanding_update [of i xs "xs ! i"]
  by (induction xs arbitrary: i) (auto simp: outstanding_def nth_Cons split: nat.splits intro: trans_le_add2)

lemma outstanding_Nil [simp]: "outstanding [] = 0"
  by (simp add: outstanding_def)

lemma liabilities_superset:
  assumes "finite A" and "live s \<subseteq> A"
  shows "liabilities s = (\<Sum>b\<in>A. outstanding (allocations s b))"
  unfolding liabilities_def
proof (rule sum.mono_neutral_left)
  show "finite A" by fact
  show "live s \<subseteq> A" by fact
  show "\<forall>b\<in>A - live s. outstanding (allocations s b) = 0"
    by (simp add: live_def)
qed

lemma live_update:
  assumes "allocations s' = (allocations s)(b := xs)"
  shows "live s' \<subseteq> insert b (live s)"
  using assms by (auto simp: live_def)

lemma liabilities_update:
  assumes fin: "finite (live s)"
    and upd: "allocations s' = (allocations s)(b := xs)"
  shows "finite (live s')"
    and "liabilities s' + outstanding (allocations s b) = liabilities s + outstanding xs"
proof -
  define A where "A = insert b (live s)"
  have finA: "finite A" and bA: "b \<in> A" and sub: "live s \<subseteq> A"
    using fin by (auto simp: A_def)
  have sub': "live s' \<subseteq> A"
    using live_update [OF upd] by (simp add: A_def)
  from finA sub' show "finite (live s')" by (rule rev_finite_subset)
  have rest: "(\<Sum>x\<in>A - {b}. outstanding (allocations s' x)) =
              (\<Sum>x\<in>A - {b}. outstanding (allocations s x))"
    by (rule sum.cong) (simp_all add: upd)
  have "liabilities s' = (\<Sum>x\<in>A. outstanding (allocations s' x))"
    using finA sub' by (rule liabilities_superset)
  also have "\<dots> = outstanding (allocations s' b) +
      (\<Sum>x\<in>A - {b}. outstanding (allocations s' x))"
    using finA bA by (rule sum.remove)
  finally have l': "liabilities s' =
      outstanding xs + (\<Sum>x\<in>A - {b}. outstanding (allocations s x))"
    using rest by (simp add: upd)
  have "liabilities s = (\<Sum>x\<in>A. outstanding (allocations s x))"
    using finA sub by (rule liabilities_superset)
  also have "\<dots> = outstanding (allocations s b) +
      (\<Sum>x\<in>A - {b}. outstanding (allocations s x))"
    using finA bA by (rule sum.remove)
  finally have l: "liabilities s =
      outstanding (allocations s b) + (\<Sum>x\<in>A - {b}. outstanding (allocations s x))" .
  from l l' show "liabilities s' + outstanding (allocations s b) = liabilities s + outstanding xs"
    by simp
qed

lemma outstanding_le_liabilities:
  assumes "finite (live s)"
  shows "outstanding (allocations s b) \<le> liabilities s"
proof (cases "allocations s b = []")
  case True
  then show ?thesis by simp
next
  case False
  then have "b \<in> live s" by (simp add: live_def)
  with assms show ?thesis
    unfolding liabilities_def by (intro member_le_sum) simp_all
qed

text \<open>A transfer between two addresses, and from an address to itself.\<close>

lemma moved_apart:
  assumes "src \<noteq> dst"
  shows "moved src dst amount bal src = bal src - amount"
    and "moved src dst amount bal dst = bal dst + amount"
    and "h \<noteq> src \<Longrightarrow> h \<noteq> dst \<Longrightarrow> moved src dst amount bal h = bal h"
  using assms by (simp_all add: moved_def Let_def)

lemma moved_apply:
  "moved src dst amount bal h =
     (if h = dst then (if dst = src then bal src - amount + amount else bal dst + amount)
      else if h = src then bal src - amount else bal h)"
  by (simp add: moved_def Let_def)

lemma moved_to_itself:
  assumes "amount \<le> bal src"
  shows "moved src src amount bal = bal"
  using assms by (auto simp: moved_def Let_def)

text \<open>Fields of the three post-states.\<close>

lemma released_state_simps [simp]:
  "allocations (released_state b i amount s) =
     (allocations s)(b := (allocations s b)
        [i := (allocations s b ! i)\<lparr>claimed := claimed (allocations s b ! i) + amount\<rparr>])"
  "balanceOf (token (released_state b i amount s)) =
     moved (self s) b amount (balanceOf (token s))"
  "owner (released_state b i amount s) = owner s"
  "self (released_state b i amount s) = self s"
  "events (released_state b i amount s) =
     events s @ [Released b amount
       (total (allocations s b ! i) - (claimed (allocations s b ! i) + amount))]"
  by (simp_all add: released_state_def Let_def)

lemma issued_state_simps [simp]:
  "allocations (issued_state caller b amount startAt cl dur pct s) =
     (allocations s)(b := allocations s b @
        [\<lparr>start = startAt, cliff = cl, duration = dur, total = amount, claimed = 0,
          initial = amount * pct div 100\<rparr>])"
  "balanceOf (token (issued_state caller b amount startAt cl dur pct s)) =
     moved caller (self s) amount (balanceOf (token s))"
  "owner (issued_state caller b amount startAt cl dur pct s) = owner s"
  "self (issued_state caller b amount startAt cl dur pct s) = self s"
  "events (issued_state caller b amount startAt cl dur pct s) =
     events s @ [Issued b amount startAt cl dur]"
  by (simp_all add: issued_state_def)

lemma revoked_state_simps [simp]:
  "allocations (revoked_state caller b i s) =
     (allocations s)(b := swap_pop i (allocations s b))"
  "balanceOf (token (revoked_state caller b i s)) =
     moved (self s) caller
       (total (allocations s b ! i) - claimed (allocations s b ! i)) (balanceOf (token s))"
  "owner (revoked_state caller b i s) = owner s"
  "self (revoked_state caller b i s) = self s"
  "events (revoked_state caller b i s) =
     events s @ [Revoked b (total (allocations s b ! i))
       (total (allocations s b ! i) - claimed (allocations s b ! i))]"
  by (simp_all add: revoked_state_def Let_def)

text \<open>The custody after each operation.\<close>

lemma custody_issued_state:
  "caller \<noteq> self s \<Longrightarrow>
   custody (issued_state caller b amount startAt cl dur pct s) = custody s + amount"
  by (simp add: custody_def moved_apart)

lemma custody_revoked_state:
  "caller \<noteq> self s \<Longrightarrow>
   custody (revoked_state caller b i s) =
     custody s - (total (allocations s b ! i) - claimed (allocations s b ! i))"
  by (simp add: custody_def moved_apart)

lemma custody_released_state:
  "b \<noteq> self s \<Longrightarrow> custody (released_state b i amount s) = custody s - amount"
  "amount \<le> custody s \<Longrightarrow> custody (released_state (self s) i amount s) = custody s"
  by (simp_all add: custody_def moved_apart moved_to_itself)

lemma paid_to_append [simp]: "paid_to v (es @ es') = paid_to v es + paid_to v es'"
  by (induction v es rule: paid_to.induct) simp_all

lemma issued_to_append [simp]: "issued_to v (es @ es') \<longleftrightarrow> issued_to v es \<or> issued_to v es'"
  by (induction v es rule: issued_to.induct) auto

section \<open>Invariants\<close>

subsection \<open>Writing one sequence of the mapping\<close>

lemma claimed_ok_update:
  assumes "claimed_ok s" and "allocations s' = (allocations s)(b := xs)"
    and "\<forall>a\<in>set xs. claimed a \<le> total a"
  shows "claimed_ok s'"
  using assms by (simp add: claimed_ok_def)

lemma typed_ok_update:
  assumes "typed_ok s" and "allocations s' = (allocations s)(b := xs)"
    and "\<forall>a\<in>set xs. total a \<le> MAX_UINT256"
  shows "typed_ok s'"
  using assms by (simp add: typed_ok_def)

lemma custody_above_update:
  assumes "custody_above k s" and "allocations s' = (allocations s)(b := xs)"
    and "custody s' + outstanding (allocations s b) + k = custody s + outstanding xs + k'"
  shows "custody_above k' s'"
proof -
  from assms(1) have fin: "finite (live s)" and c: "custody s = liabilities s + k"
    by (simp_all add: custody_above_def)
  from liabilities_update [OF fin assms(2)] assms(3) c show ?thesis
    by (simp add: custody_above_def)
qed

subsection \<open>Every operation keeps the invariants\<close>

lemma issue_claimed_ok:
  assumes "claimed_ok s" and "issue caller b amount startAt cl dur pct s = (Success, s')"
  shows "claimed_ok s'"
proof -
  from assms(2) have s': "s' = issued_state caller b amount startAt cl dur pct s"
    by (simp add: issue_Success)
  show ?thesis
  proof (rule claimed_ok_update [OF assms(1)])
    show "allocations s' = (allocations s)(b := allocations s b @
        [\<lparr>start = startAt, cliff = cl, duration = dur, total = amount, claimed = 0,
          initial = amount * pct div 100\<rparr>])"
      by (simp add: s')
    from assms(1) show "\<forall>a\<in>set (allocations s b @
        [\<lparr>start = startAt, cliff = cl, duration = dur, total = amount, claimed = 0,
          initial = amount * pct div 100\<rparr>]). claimed a \<le> total a"
      by (auto simp: claimed_ok_def)
  qed
qed

lemma issue_typed_ok:
  assumes "typed_ok s" and "amount \<le> MAX_UINT256"
    and "issue caller b amount startAt cl dur pct s = (Success, s')"
  shows "typed_ok s'"
proof -
  from assms(3) have s': "s' = issued_state caller b amount startAt cl dur pct s"
    by (simp add: issue_Success)
  show ?thesis
  proof (rule typed_ok_update [OF assms(1)])
    show "allocations s' = (allocations s)(b := allocations s b @
        [\<lparr>start = startAt, cliff = cl, duration = dur, total = amount, claimed = 0,
          initial = amount * pct div 100\<rparr>])"
      by (simp add: s')
    from assms(1,2) show "\<forall>a\<in>set (allocations s b @
        [\<lparr>start = startAt, cliff = cl, duration = dur, total = amount, claimed = 0,
          initial = amount * pct div 100\<rparr>]). total a \<le> MAX_UINT256"
      by (auto simp: typed_ok_def)
  qed
qed

lemma issue_custody_above:
  assumes "custody_above k s" and "caller \<noteq> self s"
    and "issue caller b amount startAt cl dur pct s = (Success, s')"
  shows "custody_above k s'"
proof -
  from assms(3) have s': "s' = issued_state caller b amount startAt cl dur pct s"
    by (simp add: issue_Success)
  show ?thesis
  proof (rule custody_above_update [OF assms(1)])
    show "allocations s' = (allocations s)(b := allocations s b @
        [\<lparr>start = startAt, cliff = cl, duration = dur, total = amount, claimed = 0,
          initial = amount * pct div 100\<rparr>])"
      by (simp add: s')
    show "custody s' + outstanding (allocations s b) + k =
        custody s + outstanding (allocations s b @
        [\<lparr>start = startAt, cliff = cl, duration = dur, total = amount, claimed = 0,
          initial = amount * pct div 100\<rparr>]) + k"
      using assms(2) by (simp add: s' custody_issued_state outstanding_append)
        (simp add: outstanding_def)
  qed
qed

lemma release_claimed_ok:
  assumes "claimed_ok s" and "release b i now s = (Success, s')"
  shows "claimed_ok s'"
proof -
  from assms(2) obtain amount where i: "i < length (allocations s b)"
    and r: "releasableAmount (allocations s b ! i) now = Inr amount"
    and s': "s' = released_state b i amount s"
    by (auto simp: release_Success)
  let ?a = "allocations s b ! i"
  show ?thesis
  proof (rule claimed_ok_update [OF assms(1)])
    show "allocations s' = (allocations s)
        (b := (allocations s b)[i := ?a\<lparr>claimed := claimed ?a + amount\<rparr>])"
      by (simp add: s')
    show "\<forall>a\<in>set ((allocations s b)[i := ?a\<lparr>claimed := claimed ?a + amount\<rparr>]).
        claimed a \<le> total a"
    proof
      fix a
      assume "a \<in> set ((allocations s b)[i := ?a\<lparr>claimed := claimed ?a + amount\<rparr>])"
      then have "a = ?a\<lparr>claimed := claimed ?a + amount\<rparr> \<or> a \<in> set (allocations s b)"
        using set_update_subset_insert [of "allocations s b" i] by auto
      with releasableAmount_bound [OF r] assms(1) show "claimed a \<le> total a"
        by (auto simp: claimed_ok_def)
    qed
  qed
qed

lemma release_typed_ok:
  assumes "typed_ok s" and "release b i now s = (Success, s')"
  shows "typed_ok s'"
proof -
  from assms(2) obtain amount where i: "i < length (allocations s b)"
    and s': "s' = released_state b i amount s"
    by (auto simp: release_Success)
  let ?a = "allocations s b ! i"
  show ?thesis
  proof (rule typed_ok_update [OF assms(1)])
    show "allocations s' = (allocations s)
        (b := (allocations s b)[i := ?a\<lparr>claimed := claimed ?a + amount\<rparr>])"
      by (simp add: s')
    show "\<forall>a\<in>set ((allocations s b)[i := ?a\<lparr>claimed := claimed ?a + amount\<rparr>]).
        total a \<le> MAX_UINT256"
    proof
      fix a
      assume "a \<in> set ((allocations s b)[i := ?a\<lparr>claimed := claimed ?a + amount\<rparr>])"
      then have "a = ?a\<lparr>claimed := claimed ?a + amount\<rparr> \<or> a \<in> set (allocations s b)"
        using set_update_subset_insert [of "allocations s b" i] by auto
      with nth_mem [OF i] assms(1) show "total a \<le> MAX_UINT256"
        by (auto simp: typed_ok_def)
    qed
  qed
qed

lemma release_custody_above:
  assumes "custody_above k s" and "release b i now s = (Success, s')"
  shows "\<exists>amount remaining. events s' = events s @ [Released b amount remaining] \<and>
           self s' = self s \<and>
           custody_above (k + (if b = self s then amount else 0)) s'"
proof -
  from assms(2) obtain amount where i: "i < length (allocations s b)"
    and r: "releasableAmount (allocations s b ! i) now = Inr amount"
    and c: "amount \<le> custody s"
    and s': "s' = released_state b i amount s"
    by (auto simp: release_Success)
  let ?a = "allocations s b ! i"
  let ?y = "?a\<lparr>claimed := claimed ?a + amount\<rparr>"
  note bound = releasableAmount_bound [OF r]
  have "custody_above (k + (if b = self s then amount else 0)) s'"
  proof (rule custody_above_update [OF assms(1)])
    show "allocations s' = (allocations s)(b := (allocations s b)[i := ?y])"
      by (simp add: s')
    show "custody s' + outstanding (allocations s b) + k =
        custody s + outstanding ((allocations s b)[i := ?y]) +
        (k + (if b = self s then amount else 0))"
    proof (cases "b = self s")
      case True
      with c have "custody s' = custody s" by (simp add: s' custody_released_state)
      with outstanding_update [OF i, of ?y] bound True show ?thesis by simp
    next
      case False
      then have "custody s' = custody s - amount" by (simp add: s' custody_released_state)
      with outstanding_update [OF i, of ?y] bound c False show ?thesis by simp
    qed
  qed
  then show ?thesis by (auto simp: s')
qed

lemma release_custody_ok:
  assumes "custody_ok s" and "release b i now s = (Success, s')"
  shows "custody_ok s'"
proof -
  from assms(1) have "custody_above (paid_to (self s) (events s)) s"
    by (simp add: custody_ok_def)
  from release_custody_above [OF this assms(2)] show ?thesis
    by (auto simp: custody_ok_def)
qed

lemma release_custody_exact:
  assumes "custody_exact s" and "b \<noteq> self s" and "release b i now s = (Success, s')"
  shows "custody_exact s' \<and> self s' = self s"
proof -
  from assms(1) have "custody_above 0 s" by (simp add: custody_exact_def)
  from release_custody_above [OF this assms(3)] assms(2) show ?thesis
    by (auto simp: custody_exact_def)
qed

lemma revoke_claimed_ok:
  assumes "claimed_ok s" and "revoke caller b i s = (Success, s')"
  shows "claimed_ok s'"
proof -
  from assms(2) have i: "i < length (allocations s b)"
    and s': "s' = revoked_state caller b i s"
    by (simp_all add: revoke_Success)
  show ?thesis
  proof (rule claimed_ok_update [OF assms(1)])
    show "allocations s' = (allocations s)(b := swap_pop i (allocations s b))"
      by (simp add: s')
    from set_swap_pop [OF i] assms(1)
    show "\<forall>a\<in>set (swap_pop i (allocations s b)). claimed a \<le> total a"
      by (auto simp: claimed_ok_def)
  qed
qed

lemma revoke_typed_ok:
  assumes "typed_ok s" and "revoke caller b i s = (Success, s')"
  shows "typed_ok s'"
proof -
  from assms(2) have i: "i < length (allocations s b)"
    and s': "s' = revoked_state caller b i s"
    by (simp_all add: revoke_Success)
  show ?thesis
  proof (rule typed_ok_update [OF assms(1)])
    show "allocations s' = (allocations s)(b := swap_pop i (allocations s b))"
      by (simp add: s')
    from set_swap_pop [OF i] assms(1)
    show "\<forall>a\<in>set (swap_pop i (allocations s b)). total a \<le> MAX_UINT256"
      by (auto simp: typed_ok_def)
  qed
qed

lemma revoke_custody_above:
  assumes "custody_above k s" and "caller \<noteq> self s"
    and "revoke caller b i s = (Success, s')"
  shows "custody_above k s'"
proof -
  from assms(3) have i: "i < length (allocations s b)"
    and c: "total (allocations s b ! i) - claimed (allocations s b ! i) \<le> custody s"
    and s': "s' = revoked_state caller b i s"
    by (simp_all add: revoke_Success)
  show ?thesis
  proof (rule custody_above_update [OF assms(1)])
    show "allocations s' = (allocations s)(b := swap_pop i (allocations s b))"
      by (simp add: s')
    from outstanding_swap_pop [OF i] c assms(2)
    show "custody s' + outstanding (allocations s b) + k =
        custody s + outstanding (swap_pop i (allocations s b)) + k"
      by (simp add: s' custody_revoked_state)
  qed
qed

text \<open>The owner and the vault's address never change; neither does what the log says of
  the vault's address, except by an \<open>issue\<close> to it or a \<open>release\<close> to it.\<close>

lemma issue_fixed:
  assumes "issue caller b amount startAt cl dur pct s = (Success, s')"
  shows "owner s' = owner s" and "self s' = self s" and "caller = owner s"
    and "events s' = events s @ [Issued b amount startAt cl dur]"
  using assms by (simp_all add: issue_Success)

lemma revoke_fixed:
  assumes "revoke caller b i s = (Success, s')"
  shows "owner s' = owner s" and "self s' = self s" and "caller = owner s"
    and "\<exists>tot remainder. events s' = events s @ [Revoked b tot remainder]"
    and "i < length (allocations s b)"
    and "allocations s' = (allocations s)(b := swap_pop i (allocations s b))"
  using assms by (auto simp: revoke_Success)

lemma release_fixed:
  assumes "release b i now s = (Success, s')"
  shows "owner s' = owner s" and "self s' = self s"
    and "\<exists>amount remaining. events s' = events s @ [Released b amount remaining]"
    and "i < length (allocations s b)"
  using assms by (auto simp: release_Success)

lemma issue_custody_ok:
  assumes "custody_ok s" and "owner s \<noteq> self s"
    and "issue caller b amount startAt cl dur pct s = (Success, s')"
  shows "custody_ok s'"
proof -
  from assms(1) have "custody_above (paid_to (self s) (events s)) s"
    by (simp add: custody_ok_def)
  moreover from assms(2) issue_fixed(3) [OF assms(3)] have "caller \<noteq> self s" by simp
  ultimately have "custody_above (paid_to (self s) (events s)) s'"
    using assms(3) by (rule issue_custody_above)
  with issue_fixed [OF assms(3)] show ?thesis by (simp add: custody_ok_def)
qed

lemma revoke_custody_ok:
  assumes "custody_ok s" and "owner s \<noteq> self s"
    and "revoke caller b i s = (Success, s')"
  shows "custody_ok s'"
proof -
  from assms(1) have "custody_above (paid_to (self s) (events s)) s"
    by (simp add: custody_ok_def)
  moreover from assms(2) revoke_fixed(3) [OF assms(3)] have "caller \<noteq> self s" by simp
  ultimately have "custody_above (paid_to (self s) (events s)) s'"
    using assms(3) by (rule revoke_custody_above)
  with revoke_fixed(1,2,4) [OF assms(3)] show ?thesis by (auto simp: custody_ok_def)
qed

lemma issue_unissued_ok:
  assumes "unissued_ok s" and "issue caller b amount startAt cl dur pct s = (Success, s')"
  shows "unissued_ok s'"
proof -
  from assms(2) have s': "s' = issued_state caller b amount startAt cl dur pct s"
    by (simp add: issue_Success)
  from assms(1) show ?thesis
    by (auto simp: unissued_ok_def s')
qed

lemma release_unissued_ok:
  assumes "unissued_ok s" and "release b i now s = (Success, s')"
  shows "unissued_ok s'"
proof -
  from assms(2) obtain amount where i: "i < length (allocations s b)"
    and s': "s' = released_state b i amount s"
    by (auto simp: release_Success)
  show ?thesis
    unfolding unissued_ok_def
  proof
    assume "\<not> issued_to (self s') (events s')"
    then have n: "\<not> issued_to (self s) (events s)" by (simp add: s')
    with assms(1) have e: "allocations s (self s) = []" and p: "paid_to (self s) (events s) = 0"
      by (simp_all add: unissued_ok_def)
    from e i have "b \<noteq> self s" by auto
    with e p show "allocations s' (self s') = [] \<and> paid_to (self s') (events s') = 0"
      by (simp add: s')
  qed
qed

lemma revoke_unissued_ok:
  assumes "unissued_ok s" and "revoke caller b i s = (Success, s')"
  shows "unissued_ok s'"
proof -
  from assms(2) have i: "i < length (allocations s b)"
    and s': "s' = revoked_state caller b i s"
    by (simp_all add: revoke_Success)
  show ?thesis
    unfolding unissued_ok_def
  proof
    assume "\<not> issued_to (self s') (events s')"
    then have n: "\<not> issued_to (self s) (events s)" by (simp add: s')
    with assms(1) have e: "allocations s (self s) = []" and p: "paid_to (self s) (events s) = 0"
      by (simp_all add: unissued_ok_def)
    from e i have "b \<noteq> self s" by auto
    with e p show "allocations s' (self s') = [] \<and> paid_to (self s') (events s') = 0"
      by (simp add: s')
  qed
qed

lemma releaseAll_from_preserves:
  "(\<And>i s s'. P s \<Longrightarrow> release b i now s = (Success, s') \<Longrightarrow> P s') \<Longrightarrow>
   P s \<Longrightarrow> releaseAll_from b now i s = (Success, s') \<Longrightarrow> P s'"
proof (induction b now i s rule: releaseAll_from.induct)
  case (1 b now i s)
  note step = "1.prems"(1)
  show ?case
  proof (cases "i < length (allocations s b)")
    case False
    with "1.prems" show ?thesis by simp
  next
    case True
    show ?thesis
    proof (cases "release b i now s")
      case (Pair st s1)
      show ?thesis
      proof (cases st)
        case Success
        with Pair have rel: "release b i now s = (Success, s1)" by simp
        from step [OF "1.prems"(2) rel] have p1: "P s1" .
        from "1.prems"(3) True rel
        have rest: "releaseAll_from b now (i + 1) s1 = (Success, s')" by simp
        from "1.IH" [OF True rel [symmetric] refl step p1 rest] show ?thesis .
      next
        case (Reverted e)
        with Pair True "1.prems"(3) show ?thesis by simp
      qed
    qed
  qed
qed

lemma releaseAll_preserves:
  assumes "\<And>i s s'. P s \<Longrightarrow> release b i now s = (Success, s') \<Longrightarrow> P s'"
    and "P s" and "releaseAll b now s = (Success, s')"
  shows "P s'"
proof -
  from assms(3) have "releaseAll_from b now 0 s = (Success, s')" by (simp add: releaseAll_def)
  with assms(1,2) show ?thesis by (rule releaseAll_from_preserves)
qed

subsection \<open>Every reachable state satisfies the invariants\<close>

lemma init_vault_inv: "ow \<noteq> slf \<Longrightarrow> vault_inv (init_vault ow slf bal alw)"
  by (simp add: vault_inv_def claimed_ok_def typed_ok_def custody_ok_def custody_above_def
      unissued_ok_def custody_def live_def liabilities_def init_vault_def)

lemma releaseAll_claimed_ok:
  "claimed_ok s \<Longrightarrow> releaseAll b now s = (Success, s') \<Longrightarrow> claimed_ok s'"
  by (rule releaseAll_preserves [where P = claimed_ok]) (rule release_claimed_ok)

lemma releaseAll_typed_ok:
  "typed_ok s \<Longrightarrow> releaseAll b now s = (Success, s') \<Longrightarrow> typed_ok s'"
  by (rule releaseAll_preserves [where P = typed_ok]) (rule release_typed_ok)

lemma releaseAll_custody_exact:
  assumes "custody_exact s" and "b \<noteq> self s" and "releaseAll b now s = (Success, s')"
  shows "custody_exact s'"
proof -
  have "custody_exact s' \<and> self s' \<noteq> b"
  proof (rule releaseAll_preserves [where P = "\<lambda>s. custody_exact s \<and> self s \<noteq> b"])
    fix i s s'
    assume "custody_exact s \<and> self s \<noteq> b" and "release b i now s = (Success, s')"
    then show "custody_exact s' \<and> self s' \<noteq> b"
      using release_custody_exact [of s b i now s'] by auto
  next
    from assms(1,2) show "custody_exact s \<and> self s \<noteq> b" by auto
  next
    show "releaseAll b now s = (Success, s')" by fact
  qed
  then show ?thesis ..
qed

lemma issue_vault_inv:
  assumes "vault_inv s" and "amount \<le> MAX_UINT256"
    and "issue caller b amount startAt cl dur pct s = (Success, s')"
  shows "vault_inv s'"
  using assms issue_fixed(1,2) [OF assms(3)]
  by (auto simp: vault_inv_def
      intro: issue_claimed_ok issue_typed_ok issue_custody_ok issue_unissued_ok)

lemma release_vault_inv:
  assumes "vault_inv s" and "release b i now s = (Success, s')"
  shows "vault_inv s'"
  using assms release_fixed(1,2) [OF assms(2)]
  by (auto simp: vault_inv_def
      intro: release_claimed_ok release_typed_ok release_custody_ok release_unissued_ok)

lemma revoke_vault_inv:
  assumes "vault_inv s" and "revoke caller b i s = (Success, s')"
  shows "vault_inv s'"
  using assms revoke_fixed(1,2) [OF assms(2)]
  by (auto simp: vault_inv_def
      intro: revoke_claimed_ok revoke_typed_ok revoke_custody_ok revoke_unissued_ok)

lemma releaseAll_vault_inv:
  "vault_inv s \<Longrightarrow> releaseAll b now s = (Success, s') \<Longrightarrow> vault_inv s'"
  by (rule releaseAll_preserves [where P = vault_inv]) (rule release_vault_inv)

lemma reachable_vault_inv: "reachable s \<Longrightarrow> vault_inv s"
proof (induction rule: reachable.induct)
  case (r_init ow slf bal alw)
  then show ?case by (rule init_vault_inv)
next
  case (r_issue s amount startAt cl dur initialPct caller beneficiary s')
  then show ?case by (auto intro: issue_vault_inv)
next
  case (r_release s now beneficiary index s')
  then show ?case by (auto intro: release_vault_inv)
next
  case (r_releaseAll s now beneficiary s')
  then show ?case by (auto intro: releaseAll_vault_inv)
next
  case (r_revoke s caller beneficiary index s')
  then show ?case by (auto intro: revoke_vault_inv)
qed

subsection \<open>The example states are reachable\<close>

lemma ex_vault0_fields:
  "owner ex_vault0 = 9" "self ex_vault0 = 5" "allocations ex_vault0 = (\<lambda>_. [])"
  "balanceOf (token ex_vault0) 9 = 1000" "balanceOf (token ex_vault0) 5 = 0"
  "balanceOf (token ex_vault0) 7 = 1000"
  "allowance (token ex_vault0) 9 5 = 1000" "custody ex_vault0 = 0"
  by (simp_all add: ex_vault0_def init_vault_def custody_def)

lemma ex_vault1_fields:
  "owner ex_vault1 = 9" "self ex_vault1 = 5"
  "allocations ex_vault1 7 =
     [\<lparr>start = 2, cliff = 0, duration = 10, total = 30, claimed = 0, initial = 0\<rparr>]"
  "balanceOf (token ex_vault1) 9 = 970" "balanceOf (token ex_vault1) 5 = 30"
  "balanceOf (token ex_vault1) 7 = 1000"
  "allowance (token ex_vault1) 9 5 = 970" "custody ex_vault1 = 30"
  by (simp_all add: ex_vault1_def issued_state_def ex_vault0_fields custody_def moved_apply)

lemma ex_vault2_fields:
  "owner ex_vault2 = 9" "self ex_vault2 = 5"
  "allocations ex_vault2 7 =
     [\<lparr>start = 2, cliff = 0, duration = 10, total = 30, claimed = 0, initial = 0\<rparr>,
      \<lparr>start = 12, cliff = 0, duration = 10, total = 30, claimed = 0, initial = 0\<rparr>]"
  "balanceOf (token ex_vault2) 9 = 940" "balanceOf (token ex_vault2) 5 = 60"
  "balanceOf (token ex_vault2) 7 = 1000"
  "custody ex_vault2 = 60"
  by (simp_all add: ex_vault2_def issued_state_def ex_vault1_fields custody_def moved_apply)

lemma ex_vault2_releasable:
  "releasableAmount (allocations ex_vault2 7 ! 0) 12 = Inr 30"
  "releasableAmount (allocations ex_vault2 7 ! 1) 12 = Inr 0"
  "releasableAmount (allocations ex_vault2 7 ! 0) 22 = Inr 30"
  "releasableAmount (allocations ex_vault2 7 ! 1) 22 = Inr 30"
  "releasableAmount (allocations ex_vault2 7 ! 1) 17 = Inr 15"
  by (simp_all add: releasableAmount_Inr vestedAmount_cases ex_vault2_fields MAX_UINT256_def)

lemma ex_self1_fields:
  "owner ex_self1 = 9" "self ex_self1 = 5"
  "allocations ex_self1 5 =
     [\<lparr>start = 2, cliff = 0, duration = 10, total = 30, claimed = 0, initial = 0\<rparr>]"
  "custody ex_self1 = 30"
  by (simp_all add: ex_self1_def issued_state_def ex_vault0_fields custody_def moved_apply)

lemma reachable_ex_vault0: "reachable ex_vault0"
  unfolding ex_vault0_def by (rule r_init) simp

lemma reachable_ex_vault1: "reachable ex_vault1"
proof (rule r_issue [OF reachable_ex_vault0])
  show "transact (issue 9 7 30 2 0 10 0) ex_vault0 = (Success, ex_vault1)"
    by (simp add: issue_Success ex_vault1_def ex_vault0_fields MAX_UINT256_def)
qed (simp_all add: MAX_UINT256_def)

lemma reachable_ex_vault2: "reachable ex_vault2"
proof (rule r_issue [OF reachable_ex_vault1])
  show "transact (issue 9 7 30 12 0 10 0) ex_vault1 = (Success, ex_vault2)"
    by (simp add: issue_Success ex_vault2_def ex_vault1_fields MAX_UINT256_def)
qed (simp_all add: MAX_UINT256_def)

lemma release_ex_vault2:
  "release 7 0 12 ex_vault2 = (Success, released_state 7 0 30 ex_vault2)"
  by (simp add: release_Success ex_vault2_fields releasableAmount_Inr vestedAmount_cases
      MAX_UINT256_def)

lemma reachable_ex_self1: "reachable ex_self1"
proof (rule r_issue [OF reachable_ex_vault0])
  show "transact (issue 9 5 30 2 0 10 0) ex_vault0 = (Success, ex_self1)"
    by (simp add: issue_Success ex_self1_def ex_vault0_fields MAX_UINT256_def)
qed (simp_all add: MAX_UINT256_def)

lemma reachable_ex_self2: "reachable ex_self2"
proof (rule r_release [OF reachable_ex_self1, of 12])
  show "transact (release 5 0 12) ex_self1 = (Success, ex_self2)"
    by (simp add: release_Success ex_self2_def ex_self1_fields releasableAmount_Inr
        vestedAmount_cases MAX_UINT256_def)
qed (simp add: MAX_UINT256_def)

text \<open>
  C7: in every state reached from the empty store by \<open>issue\<close>, \<open>release\<close>,
  \<open>releaseAll\<close> and \<open>revoke\<close>, every stored allocation has \<open>claimed \<le> total\<close> (and
  \<open>0 \<le> claimed\<close>, the field being unsigned); and each of the four operations, when it
  succeeds, keeps that property.
\<close>

theorem claimed_within_total:
  "(reachable s \<longrightarrow> (\<forall>b. \<forall>a\<in>set (allocations s b). 0 \<le> claimed a \<and> claimed a \<le> total a)) \<and>
   (claimed_ok s \<longrightarrow>
      (\<forall>s'. transact (issue caller b amount startAt cl dur pct) s = (Success, s') \<longrightarrow>
         claimed_ok s') \<and>
      (\<forall>s'. transact (release b i now) s = (Success, s') \<longrightarrow> claimed_ok s') \<and>
      (\<forall>s'. transact (releaseAll b now) s = (Success, s') \<longrightarrow> claimed_ok s') \<and>
      (\<forall>s'. transact (revoke caller b i) s = (Success, s') \<longrightarrow> claimed_ok s'))"
proof (intro conjI impI allI)
  assume "reachable s"
  then have "claimed_ok s" using reachable_vault_inv by (simp add: vault_inv_def)
  then show "\<forall>a\<in>set (allocations s b). 0 \<le> claimed a \<and> claimed a \<le> total a" for b
    by (simp add: claimed_ok_def)
qed (auto intro: issue_claimed_ok release_claimed_ok releaseAll_claimed_ok revoke_claimed_ok)

theorem claimed_within_total_witness:
  "reachable ex_vault2 \<and> claimed_ok ex_vault2 \<and>
   allocations ex_vault2 7 ! 1 \<in> set (allocations ex_vault2 7) \<and>
   claimed (allocations ex_vault2 7 ! 1) \<le> total (allocations ex_vault2 7 ! 1) \<and>
   transact (release 7 0 12) ex_vault2 = (Success, released_state 7 0 30 ex_vault2) \<and>
   claimed_ok (released_state 7 0 30 ex_vault2)"
proof -
  have r: "reachable ex_vault2" by (rule reachable_ex_vault2)
  have m: "allocations ex_vault2 7 ! 1 \<in> set (allocations ex_vault2 7)"
    by (simp add: ex_vault2_fields)
  have rel: "transact (release 7 0 12) ex_vault2 = (Success, released_state 7 0 30 ex_vault2)"
    by (simp add: release_ex_vault2)
  note c = claimed_within_total [of ex_vault2 9 7 30 2 0 10 0 0 12]
  from c r have all: "\<forall>b. \<forall>a\<in>set (allocations ex_vault2 b). 0 \<le> claimed a \<and> claimed a \<le> total a"
    by blast
  then have ok: "claimed_ok ex_vault2" by (simp add: claimed_ok_def)
  from all m have le: "claimed (allocations ex_vault2 7 ! 1) \<le> total (allocations ex_vault2 7 ! 1)"
    by blast
  from c ok rel have "claimed_ok (released_state 7 0 30 ex_vault2)" by blast
  with r ok m le rel show ?thesis by blast
qed

text \<open>
  C9, as the specification states it: in every reachable state the balance in custody
  equals the sum of \<open>total - claimed\<close> over all allocations. \<open>issue\<close> refuses only
  the zero address as beneficiary, so an allocation can be issued to the vault's own
  address, and \<open>release\<close> then transfers from the vault to itself: the allocation is
  booked as claimed and the balance stays. After an allocation of 30 issued to the
  vault and released in full, the vault holds 30 and owes 0.
\<close>

theorem custody_self_beneficiary_counterexample:
  "reachable ex_self2 \<and> custody ex_self2 = 30 \<and> liabilities ex_self2 = 0 \<and>
   custody ex_self2 \<noteq> liabilities ex_self2"
proof -
  have al: "allocations ex_self2 =
      (\<lambda>_. [])(5 := [\<lparr>start = 2, cliff = 0, duration = 10, total = 30, claimed = 30,
        initial = 0\<rparr>])"
    by (simp add: ex_self2_def ex_self1_def issued_state_def ex_vault0_fields)
  have "outstanding (allocations ex_self2 b) = 0" for b
    by (simp add: al outstanding_def)
  then have l: "liabilities ex_self2 = 0"
    by (simp add: liabilities_def)
  have c: "custody ex_self2 = 30"
    using custody_released_state(2) [of 30 ex_self1 0] ex_self1_fields
    by (simp add: ex_self2_def)
  from reachable_ex_self2 l c show ?thesis by simp
qed

text \<open>
  C9, amended: with the token's balance of the vault's own address kept in the state,
  in every state reached from the empty store the balance in custody equals the sum
  of \<open>total - claimed\<close> over the allocations of all beneficiaries plus the amounts
  that \<open>release\<close> has paid to the vault's own address; so the two are equal as
  long as the vault was never issued an allocation. Every successful \<open>issue\<close> and
  \<open>revoke\<close> by a caller other than the vault keeps the equality, and so does every
  successful \<open>release\<close> and \<open>releaseAll\<close> for a beneficiary other than the vault.
\<close>

theorem custody_equals_liabilities:
  "(reachable s \<longrightarrow>
      custody s = liabilities s + paid_to (self s) (events s) \<and>
      (\<not> issued_to (self s) (events s) \<longrightarrow> custody s = liabilities s)) \<and>
   (custody_exact s \<longrightarrow>
      (\<forall>s'. caller \<noteq> self s \<and>
            transact (issue caller b amount startAt cl dur pct) s = (Success, s') \<longrightarrow>
         custody_exact s') \<and>
      (\<forall>s'. b \<noteq> self s \<and> transact (release b i now) s = (Success, s') \<longrightarrow>
         custody_exact s') \<and>
      (\<forall>s'. b \<noteq> self s \<and> transact (releaseAll b now) s = (Success, s') \<longrightarrow>
         custody_exact s') \<and>
      (\<forall>s'. caller \<noteq> self s \<and> transact (revoke caller b i) s = (Success, s') \<longrightarrow>
         custody_exact s'))"
proof -
  have reach: "custody s = liabilities s + paid_to (self s) (events s) \<and>
      (\<not> issued_to (self s) (events s) \<longrightarrow> custody s = liabilities s)"
    if "reachable s"
  proof -
    from that have "vault_inv s" by (rule reachable_vault_inv)
    then show ?thesis
      by (auto simp: vault_inv_def custody_ok_def custody_above_def unissued_ok_def)
  qed
  have iss: "custody_exact s'"
    if "custody_exact s"
      "caller \<noteq> self s \<and>
       transact (issue caller b amount startAt cl dur pct) s = (Success, s')" for s'
  proof -
    from that(1) have c: "custody_above 0 s" by (simp add: custody_exact_def)
    from that(2) have n: "caller \<noteq> self s"
      and i: "issue caller b amount startAt cl dur pct s = (Success, s')" by simp_all
    from issue_custody_above [OF c n i] show ?thesis by (simp add: custody_exact_def)
  qed
  have rev: "custody_exact s'"
    if "custody_exact s"
      "caller \<noteq> self s \<and> transact (revoke caller b i) s = (Success, s')" for s'
  proof -
    from that(1) have c: "custody_above 0 s" by (simp add: custody_exact_def)
    from that(2) have n: "caller \<noteq> self s"
      and r: "revoke caller b i s = (Success, s')" by simp_all
    from revoke_custody_above [OF c n r] show ?thesis by (simp add: custody_exact_def)
  qed
  have rel: "custody_exact s'"
    if "custody_exact s" "b \<noteq> self s \<and> transact (release b i now) s = (Success, s')" for s'
  proof -
    from that(2) have n: "b \<noteq> self s" and r: "release b i now s = (Success, s')"
      by simp_all
    from release_custody_exact [OF that(1) n r] show ?thesis ..
  qed
  have all: "custody_exact s'"
    if "custody_exact s" "b \<noteq> self s \<and> transact (releaseAll b now) s = (Success, s')" for s'
  proof -
    from that(2) have n: "b \<noteq> self s" and r: "releaseAll b now s = (Success, s')"
      by simp_all
    from that(1) n r show ?thesis by (rule releaseAll_custody_exact)
  qed
  from reach iss rev rel all show ?thesis by blast
qed

theorem custody_equals_liabilities_witness:
  "reachable ex_vault2 \<and> \<not> issued_to (self ex_vault2) (events ex_vault2) \<and>
   custody ex_vault2 = 60 \<and> liabilities ex_vault2 = 60 \<and>
   custody_exact ex_vault2 \<and> 7 \<noteq> self ex_vault2 \<and>
   transact (release 7 0 12) ex_vault2 = (Success, released_state 7 0 30 ex_vault2) \<and>
   custody_exact (released_state 7 0 30 ex_vault2) \<and>
   reachable ex_self2 \<and>
   custody ex_self2 = liabilities ex_self2 + paid_to (self ex_self2) (events ex_self2)"
proof -
  have r: "reachable ex_vault2" by (rule reachable_ex_vault2)
  have n: "\<not> issued_to (self ex_vault2) (events ex_vault2)"
    by (simp add: ex_vault2_def ex_vault1_def ex_vault0_def init_vault_def)
  have rel: "transact (release 7 0 12) ex_vault2 = (Success, released_state 7 0 30 ex_vault2)"
    by (simp add: release_ex_vault2)
  have ne: "7 \<noteq> self ex_vault2" by (simp add: ex_vault2_fields)
  note c = custody_equals_liabilities [of ex_vault2 9 7 30 2 0 10 0 0 12]
  from c r n have eq: "custody ex_vault2 = liabilities ex_vault2" by blast
  then have l: "liabilities ex_vault2 = 60" by (simp add: ex_vault2_fields)
  from reachable_vault_inv [OF r] have "finite (live ex_vault2)"
    by (simp add: vault_inv_def custody_ok_def custody_above_def)
  with eq have ex: "custody_exact ex_vault2"
    by (simp add: custody_exact_def custody_above_def)
  from c ex ne rel have ex': "custody_exact (released_state 7 0 30 ex_vault2)" by blast
  from custody_equals_liabilities [of ex_self2] reachable_ex_self2
  have s2: "custody ex_self2 = liabilities ex_self2 + paid_to (self ex_self2) (events ex_self2)"
    by blast
  from r n eq l ex ne rel ex' reachable_ex_self2 s2 show ?thesis
    by (simp add: ex_vault2_fields)
qed

subsection \<open>Operations that cannot fail in a reachable state\<close>

lemma nth_outstanding_le_custody:
  assumes "custody_ok s" and "i < length (allocations s b)"
  shows "total (allocations s b ! i) - claimed (allocations s b ! i) \<le> custody s"
proof -
  from assms(1) have fin: "finite (live s)" and c: "liabilities s \<le> custody s"
    by (simp_all add: custody_ok_def custody_above_def)
  have "total (allocations s b ! i) - claimed (allocations s b ! i) \<le> outstanding (allocations s b)"
    using assms(2) by (rule outstanding_nth_le)
  also have "\<dots> \<le> liabilities s" using fin by (rule outstanding_le_liabilities)
  finally show ?thesis using c by simp
qed

lemma release_succeeds:
  assumes inv: "vault_inv s" and i: "i < length (allocations s b)"
    and r: "releasableAmount (allocations s b ! i) now = Inr amount" and pos: "0 < amount"
  shows "release b i now s = (Success, released_state b i amount s)"
proof -
  let ?a = "allocations s b ! i"
  from inv have t: "typed_ok s" and c: "custody_ok s" by (simp_all add: vault_inv_def)
  have le: "claimed ?a + amount \<le> total ?a" using r by (rule releasableAmount_bound)
  from t nth_mem [OF i] have "total ?a \<le> MAX_UINT256" by (simp add: typed_ok_def)
  with le have m: "claimed ?a + amount \<le> MAX_UINT256" by simp
  from nth_outstanding_le_custody [OF c i] le have "amount \<le> custody s" by simp
  with i r pos m show ?thesis by (simp add: release_Success)
qed

lemma revoke_succeeds:
  assumes inv: "vault_inv s" and i: "i < length (allocations s b)"
  shows "revoke (owner s) b i s = (Success, revoked_state (owner s) b i s)"
proof -
  from inv have cl: "claimed_ok s" and c: "custody_ok s" by (simp_all add: vault_inv_def)
  from cl nth_mem [OF i] have "claimed (allocations s b ! i) \<le> total (allocations s b ! i)"
    by (simp add: claimed_ok_def)
  with i nth_outstanding_le_custody [OF c i] show ?thesis by (simp add: revoke_Success)
qed

lemma releasableAmount_not_NothingToRelease:
  "releasableAmount a now \<noteq> Inl NothingToRelease"
  by (simp add: releasableAmount_def sub_uint_def vestedAmount_cases split: sum.splits)

lemma release_NothingToRelease:
  assumes "i < length (allocations s b)"
  shows "fst (release b i now s) = Reverted NothingToRelease \<longleftrightarrow>
         releasableAmount (allocations s b ! i) now = Inr 0"
  using assms releasableAmount_not_NothingToRelease [of "allocations s b ! i" now]
  by (auto simp: release_def safeTransfer_def token_transfer_def Let_def add_uint_def sub_uint_def
      split: if_splits sum.splits prod.splits status.splits option.splits)

lemma release_zero:
  assumes "i < length (allocations s b)"
    and "releasableAmount (allocations s b ! i) now = Inr 0"
  shows "release b i now s = (Reverted NothingToRelease, s)"
  using assms by (simp add: release_def)

text \<open>
  C5: whenever a validation of \<open>issue\<close> fails (the caller's allowance to the vault is
  below the amount, the beneficiary is the zero address, the cliff exceeds the
  duration or the percentage exceeds 100), the call reverts at that check with the
  state as it was: no storage written, no token call made. When \<open>issue\<close> succeeds,
  the amount has been pulled from the caller into the vault by one
  \<^verbatim>\<open>transferFrom\<close> and the allocation
  \<open>{start = startAt, cliff, duration, total = amount, claimed = 0,
  initial = amount * initialPct div 100}\<close> has been appended to the beneficiary's
  sequence; and it succeeds whenever the caller is the owner, the validations pass, the
  caller holds the amount and \<open>amount * initialPct\<close> is a \<^verbatim>\<open>uint256\<close>.
\<close>

theorem issue_validates_then_appends:
  "(allowance (token s) caller (self s) < amount \<or> b = 0 \<or> dur < cl \<or> 100 < pct \<longrightarrow>
      (\<exists>e. issue caller b amount startAt cl dur pct s = (Reverted e, s) \<and>
           transact (issue caller b amount startAt cl dur pct) s = (Reverted e, s) \<and>
           e \<in> {NotOwner, AllowanceInsufficient, ZeroAddress, CliffExceedsDuration,
                BadInitialPct})) \<and>
   (\<forall>s'. issue caller b amount startAt cl dur pct s = (Success, s') \<longrightarrow>
      allocations s' = (allocations s)(b := allocations s b @
        [\<lparr>start = startAt, cliff = cl, duration = dur, total = amount, claimed = 0,
          initial = amount * pct div 100\<rparr>]) \<and>
      balanceOf (token s') = moved caller (self s) amount (balanceOf (token s)) \<and>
      (caller \<noteq> self s \<longrightarrow>
         custody s' = custody s + amount \<and>
         balanceOf (token s') caller = balanceOf (token s) caller - amount) \<and>
      calls s' = calls s @ [CallTransferFrom caller amount (allocations s)]) \<and>
   (caller = owner s \<and> amount \<le> allowance (token s) caller (self s) \<and> b \<noteq> 0 \<and>
    cl \<le> dur \<and> pct \<le> 100 \<and> amount \<le> balanceOf (token s) caller \<and>
    amount * pct \<le> MAX_UINT256 \<longrightarrow>
      (\<exists>s'. issue caller b amount startAt cl dur pct s = (Success, s')))"
proof -
  have fails: "\<exists>e. issue caller b amount startAt cl dur pct s = (Reverted e, s) \<and>
           transact (issue caller b amount startAt cl dur pct) s = (Reverted e, s) \<and>
           e \<in> {NotOwner, AllowanceInsufficient, ZeroAddress, CliffExceedsDuration,
                BadInitialPct}"
    if "allowance (token s) caller (self s) < amount \<or> b = 0 \<or> dur < cl \<or> 100 < pct"
    using that by (auto simp: issue_def transact_def)
  have succ: "allocations s' = (allocations s)(b := allocations s b @
        [\<lparr>start = startAt, cliff = cl, duration = dur, total = amount, claimed = 0,
          initial = amount * pct div 100\<rparr>]) \<and>
      balanceOf (token s') = moved caller (self s) amount (balanceOf (token s)) \<and>
      (caller \<noteq> self s \<longrightarrow>
         custody s' = custody s + amount \<and>
         balanceOf (token s') caller = balanceOf (token s) caller - amount) \<and>
      calls s' = calls s @ [CallTransferFrom caller amount (allocations s)]"
    if "issue caller b amount startAt cl dur pct s = (Success, s')" for s'
  proof -
    from that have s': "s' = issued_state caller b amount startAt cl dur pct s"
      by (simp add: issue_Success)
    have "calls s' = calls s @ [CallTransferFrom caller amount (allocations s)]"
      by (simp add: s' issued_state_def)
    then show ?thesis
      by (simp add: s' custody_issued_state moved_apart)
  qed
  have can: "\<exists>s'. issue caller b amount startAt cl dur pct s = (Success, s')"
    if "caller = owner s \<and> amount \<le> allowance (token s) caller (self s) \<and> b \<noteq> 0 \<and>
      cl \<le> dur \<and> pct \<le> 100 \<and> amount \<le> balanceOf (token s) caller \<and>
      amount * pct \<le> MAX_UINT256"
    using that by (auto simp: issue_Success)
  from fails succ can show ?thesis by blast
qed

theorem issue_validates_then_appends_witness:
  "(10::nat) < 11 \<and>
   issue 9 7 30 2 11 10 0 ex_vault0 = (Reverted CliffExceedsDuration, ex_vault0) \<and>
   transact (issue 9 7 30 2 11 10 0) ex_vault0 = (Reverted CliffExceedsDuration, ex_vault0) \<and>
   issue 9 7 30 2 0 10 0 ex_vault0 = (Success, ex_vault1) \<and>
   allocations ex_vault1 7 =
     [\<lparr>start = 2, cliff = 0, duration = 10, total = 30, claimed = 0, initial = 0\<rparr>] \<and>
   custody ex_vault1 = 30 \<and> balanceOf (token ex_vault1) 9 = 970"
proof -
  have f: "issue 9 7 30 2 11 10 0 ex_vault0 = (Reverted CliffExceedsDuration, ex_vault0)"
    using issue_validates_then_appends [of ex_vault0 9 30 7 10 11 0 2]
    by (auto simp: issue_def ex_vault0_fields)
  have t: "transact (issue 9 7 30 2 11 10 0) ex_vault0 = (Reverted CliffExceedsDuration, ex_vault0)"
    using issue_validates_then_appends [of ex_vault0 9 30 7 10 11 0 2] f
    by auto
  have ok: "issue 9 7 30 2 0 10 0 ex_vault0 = (Success, ex_vault1)"
    by (simp add: issue_Success ex_vault1_def ex_vault0_fields MAX_UINT256_def)
  from issue_validates_then_appends [of ex_vault0 9 30 7 10 0 0 2] ok
  have "allocations ex_vault1 7 =
     [\<lparr>start = 2, cliff = 0, duration = 10, total = 30, claimed = 0, initial = 0\<rparr>]"
    and "custody ex_vault1 = 30" and "balanceOf (token ex_vault1) 9 = 970"
    by (simp_all add: ex_vault0_fields moved_apply)
  with f t ok show ?thesis by simp
qed

subsection \<open>Claims on \<open>revoke\<close>, \<open>release\<close> and the division\<close>

text \<open>
  C4: in every reachable state and for every valid index, \<open>revoke\<close> called by the owner
  succeeds, also when the remainder is 0. It computes
  \<open>remainder = total - claimed\<close> of the addressed allocation, whatever part of it has
  vested; it overwrites the allocation with the last element of the sequence, unless it
  is the last, and drops the last element, so the sequence is one shorter; and it
  transfers the whole remainder from the vault to the caller: the balance in custody
  falls by it, the caller's balance rises by it, no other holder's balance changes.
\<close>

theorem revoke_pays_issuer:
  assumes "reachable s" and "i < length (allocations s b)"
  shows "\<exists>s'. revoke (owner s) b i s = (Success, s') \<and>
           allocations s' b =
             butlast (if i \<noteq> length (allocations s b) - 1
                      then (allocations s b)[i := allocations s b ! (length (allocations s b) - 1)]
                      else allocations s b) \<and>
           length (allocations s' b) = length (allocations s b) - 1 \<and>
           (\<forall>b'. b' \<noteq> b \<longrightarrow> allocations s' b' = allocations s b') \<and>
           balanceOf (token s') =
             moved (self s) (owner s)
               (total (allocations s b ! i) - claimed (allocations s b ! i))
               (balanceOf (token s)) \<and>
           owner s \<noteq> self s \<and>
           custody s' = custody s -
             (total (allocations s b ! i) - claimed (allocations s b ! i)) \<and>
           balanceOf (token s') (owner s) = balanceOf (token s) (owner s) +
             (total (allocations s b ! i) - claimed (allocations s b ! i)) \<and>
           (\<forall>h. h \<noteq> owner s \<and> h \<noteq> self s \<longrightarrow>
              balanceOf (token s') h = balanceOf (token s) h) \<and>
           calls s' = calls s @
             [CallTransfer (owner s) (total (allocations s b ! i) - claimed (allocations s b ! i))
                (allocations s')]"
proof -
  from assms(1) have inv: "vault_inv s" by (rule reachable_vault_inv)
  then have ne: "owner s \<noteq> self s" by (simp add: vault_inv_def)
  from inv assms(2)
  have r: "revoke (owner s) b i s = (Success, revoked_state (owner s) b i s)"
    by (rule revoke_succeeds)
  have l: "length (allocations (revoked_state (owner s) b i s) b) =
      length (allocations s b) - 1"
    using assms(2) by (simp add: swap_pop_length)
  have c: "calls (revoked_state (owner s) b i s) = calls s @
      [CallTransfer (owner s) (total (allocations s b ! i) - claimed (allocations s b ! i))
         (allocations (revoked_state (owner s) b i s))]"
    by (simp add: revoked_state_def Let_def)
  from ne have m: "owner s \<noteq> self s \<and>
      custody (revoked_state (owner s) b i s) = custody s -
        (total (allocations s b ! i) - claimed (allocations s b ! i)) \<and>
      balanceOf (token (revoked_state (owner s) b i s)) (owner s) =
        balanceOf (token s) (owner s) +
        (total (allocations s b ! i) - claimed (allocations s b ! i)) \<and>
      (\<forall>h. h \<noteq> owner s \<and> h \<noteq> self s \<longrightarrow>
         balanceOf (token (revoked_state (owner s) b i s)) h = balanceOf (token s) h)"
    using moved_apart [of "self s" "owner s"]
    by (simp add: custody_revoked_state)
  have a: "allocations (revoked_state (owner s) b i s) b =
      butlast (if i \<noteq> length (allocations s b) - 1
               then (allocations s b)[i := allocations s b ! (length (allocations s b) - 1)]
               else allocations s b) \<and>
      (\<forall>b'. b' \<noteq> b \<longrightarrow> allocations (revoked_state (owner s) b i s) b' = allocations s b') \<and>
      balanceOf (token (revoked_state (owner s) b i s)) =
        moved (self s) (owner s)
          (total (allocations s b ! i) - claimed (allocations s b ! i))
          (balanceOf (token s))"
    by (simp add: swap_pop_def)
  from r l c m a show ?thesis by blast
qed

theorem revoke_pays_issuer_witness:
  "reachable ex_vault2 \<and> (0::nat) < length (allocations ex_vault2 7) \<and>
   (\<exists>s'. revoke 9 7 0 ex_vault2 = (Success, s') \<and>
      allocations s' 7 =
        [\<lparr>start = 12, cliff = 0, duration = 10, total = 30, claimed = 0, initial = 0\<rparr>] \<and>
      custody s' = 30 \<and> balanceOf (token s') 9 = 970 \<and> balanceOf (token s') 7 = 1000)"
proof -
  have r: "reachable ex_vault2" by (rule reachable_ex_vault2)
  have l: "(0::nat) < length (allocations ex_vault2 7)"
    by (simp add: ex_vault2_fields)
  from revoke_pays_issuer [OF r l] obtain s'
    where "revoke (owner ex_vault2) 7 0 ex_vault2 = (Success, s')"
      and "allocations s' 7 =
             butlast (if 0 \<noteq> length (allocations ex_vault2 7) - 1
                      then (allocations ex_vault2 7)
                        [0 := allocations ex_vault2 7 ! (length (allocations ex_vault2 7) - 1)]
                      else allocations ex_vault2 7)"
      and "custody s' = custody ex_vault2 -
             (total (allocations ex_vault2 7 ! 0) - claimed (allocations ex_vault2 7 ! 0))"
      and "balanceOf (token s') (owner ex_vault2) = balanceOf (token ex_vault2) (owner ex_vault2) +
             (total (allocations ex_vault2 7 ! 0) - claimed (allocations ex_vault2 7 ! 0))"
      and "\<forall>h. h \<noteq> owner ex_vault2 \<and> h \<noteq> self ex_vault2 \<longrightarrow>
             balanceOf (token s') h = balanceOf (token ex_vault2) h"
    by blast
  then have "revoke 9 7 0 ex_vault2 = (Success, s') \<and>
      allocations s' 7 =
        [\<lparr>start = 12, cliff = 0, duration = 10, total = 30, claimed = 0, initial = 0\<rparr>] \<and>
      custody s' = 30 \<and> balanceOf (token s') 9 = 970 \<and> balanceOf (token s') 7 = 1000"
    by (simp add: ex_vault2_fields)
  with r l show ?thesis by blast
qed

text \<open>
  C6: for a valid index, \<open>release\<close> fails with \<open>NothingToRelease\<close> exactly when the
  releasable amount of the allocation is 0, and then nothing was written and no token
  call was made. When the releasable amount is positive, in a reachable state,
  \<open>release\<close> succeeds: \<open>claimed\<close> of that allocation grows by exactly the releasable
  amount, the sequence keeps its length and its other allocations, the sequences of the
  other beneficiaries are untouched, and the one transfer of that amount from the
  vault to the beneficiary is made with \<open>claimed\<close> already updated in storage.
\<close>

theorem release_bookkeeping:
  assumes "i < length (allocations s b)"
  shows "(fst (release b i now s) = Reverted NothingToRelease \<longleftrightarrow>
            releasableAmount (allocations s b ! i) now = Inr 0) \<and>
         (releasableAmount (allocations s b ! i) now = Inr 0 \<longrightarrow>
            release b i now s = (Reverted NothingToRelease, s) \<and>
            transact (release b i now) s = (Reverted NothingToRelease, s)) \<and>
         (reachable s \<longrightarrow>
            (\<forall>amount. releasableAmount (allocations s b ! i) now = Inr amount \<and> 0 < amount \<longrightarrow>
               (\<exists>s'. release b i now s = (Success, s') \<and>
                  allocations s' b = (allocations s b)
                    [i := (allocations s b ! i)
                       \<lparr>claimed := claimed (allocations s b ! i) + amount\<rparr>] \<and>
                  length (allocations s' b) = length (allocations s b) \<and>
                  (\<forall>j. j \<noteq> i \<longrightarrow> allocations s' b ! j = allocations s b ! j) \<and>
                  (\<forall>b'. b' \<noteq> b \<longrightarrow> allocations s' b' = allocations s b') \<and>
                  calls s' = calls s @ [CallTransfer b amount (allocations s')] \<and>
                  balanceOf (token s') = moved (self s) b amount (balanceOf (token s)) \<and>
                  (b \<noteq> self s \<longrightarrow>
                     custody s' = custody s - amount \<and>
                     balanceOf (token s') b = balanceOf (token s) b + amount))))"
proof -
  have iff: "fst (release b i now s) = Reverted NothingToRelease \<longleftrightarrow>
            releasableAmount (allocations s b ! i) now = Inr 0"
    using assms by (rule release_NothingToRelease)
  have zero: "release b i now s = (Reverted NothingToRelease, s) \<and>
            transact (release b i now) s = (Reverted NothingToRelease, s)"
    if "releasableAmount (allocations s b ! i) now = Inr 0"
    using release_zero [OF assms that] by (simp add: transact_def)
  have pos: "\<exists>s'. release b i now s = (Success, s') \<and>
                  allocations s' b = (allocations s b)
                    [i := (allocations s b ! i)
                       \<lparr>claimed := claimed (allocations s b ! i) + amount\<rparr>] \<and>
                  length (allocations s' b) = length (allocations s b) \<and>
                  (\<forall>j. j \<noteq> i \<longrightarrow> allocations s' b ! j = allocations s b ! j) \<and>
                  (\<forall>b'. b' \<noteq> b \<longrightarrow> allocations s' b' = allocations s b') \<and>
                  calls s' = calls s @ [CallTransfer b amount (allocations s')] \<and>
                  balanceOf (token s') = moved (self s) b amount (balanceOf (token s)) \<and>
                  (b \<noteq> self s \<longrightarrow>
                     custody s' = custody s - amount \<and>
                     balanceOf (token s') b = balanceOf (token s) b + amount)"
    if r: "reachable s"
      and a: "releasableAmount (allocations s b ! i) now = Inr amount \<and> 0 < amount" for amount
  proof -
    from r have "vault_inv s" by (rule reachable_vault_inv)
    with assms a have rel: "release b i now s = (Success, released_state b i amount s)"
      by (simp add: release_succeeds)
    have c: "calls (released_state b i amount s) =
        calls s @ [CallTransfer b amount (allocations (released_state b i amount s))]"
      by (simp add: released_state_def Let_def)
    have m: "b \<noteq> self s \<longrightarrow>
        custody (released_state b i amount s) = custody s - amount \<and>
        balanceOf (token (released_state b i amount s)) b = balanceOf (token s) b + amount"
      using moved_apart [of "self s" b] by (simp add: custody_released_state)
    from rel c m show ?thesis by simp
  qed
  from iff zero pos show ?thesis by blast
qed

theorem release_bookkeeping_witness:
  "(1::nat) < length (allocations ex_vault2 7) \<and> reachable ex_vault2 \<and>
   releasableAmount (allocations ex_vault2 7 ! 1) 12 = Inr 0 \<and>
   release 7 1 12 ex_vault2 = (Reverted NothingToRelease, ex_vault2) \<and>
   releasableAmount (allocations ex_vault2 7 ! 1) 17 = Inr 15 \<and>
   (\<exists>s'. release 7 1 17 ex_vault2 = (Success, s') \<and>
      claimed (allocations s' 7 ! 1) = 15 \<and> allocations s' 7 ! 0 = allocations ex_vault2 7 ! 0 \<and>
      calls s' = calls ex_vault2 @ [CallTransfer 7 15 (allocations s')] \<and>
      custody s' = 45 \<and> balanceOf (token s') 7 = 1015)"
proof -
  have r: "reachable ex_vault2" by (rule reachable_ex_vault2)
  have l: "(1::nat) < length (allocations ex_vault2 7)"
    by (simp add: ex_vault2_fields)
  note z = ex_vault2_releasable(2)
  have p: "releasableAmount (allocations ex_vault2 7 ! 1) 17 = Inr 15 \<and> (0::nat) < 15"
    using ex_vault2_releasable(5) by simp
  have ne: "7 \<noteq> self ex_vault2" by (simp add: ex_vault2_fields)
  from release_bookkeeping [OF l, of 12] z
  have f: "release 7 1 12 ex_vault2 = (Reverted NothingToRelease, ex_vault2)" by blast
  from release_bookkeeping [OF l, of 17] r p ne obtain s'
    where "release 7 1 17 ex_vault2 = (Success, s')"
      and "allocations s' 7 = (allocations ex_vault2 7)
             [1 := (allocations ex_vault2 7 ! 1)
                \<lparr>claimed := claimed (allocations ex_vault2 7 ! 1) + 15\<rparr>]"
      and "calls s' = calls ex_vault2 @ [CallTransfer 7 15 (allocations s')]"
      and "custody s' = custody ex_vault2 - 15"
      and "balanceOf (token s') 7 = balanceOf (token ex_vault2) 7 + 15"
    by blast
  then have "release 7 1 17 ex_vault2 = (Success, s') \<and>
      claimed (allocations s' 7 ! 1) = 15 \<and> allocations s' 7 ! 0 = allocations ex_vault2 7 ! 0 \<and>
      calls s' = calls ex_vault2 @ [CallTransfer 7 15 (allocations s')] \<and>
      custody s' = 45 \<and> balanceOf (token s') 7 = 1015"
    by (simp add: ex_vault2_fields)
  with l r z f p show ?thesis by blast
qed

text \<open>
  C10: \<open>issue\<close> succeeds only with \<open>cliff \<le> duration\<close>, and the allocation it appends
  carries that cliff and duration. For an allocation with \<open>cliff \<le> duration\<close> the
  calculator never divides by zero: when the duration is 0 the cliff is 0, a time
  before \<open>start\<close> takes the first branch (0) and a time from \<open>start\<close> on takes the second
  (\<open>total\<close>), so the dividing branch is not reached and the allocation is fully vested
  from \<open>start\<close> on.
\<close>

theorem issued_allocation_never_divides_by_zero:
  "(issue caller b amount startAt cl dur pct s = (Success, s') \<longrightarrow>
      (\<exists>a. allocations s' b = allocations s b @ [a] \<and> cliff a \<le> duration a \<and>
           start a = startAt \<and> cliff a = cl \<and> duration a = dur \<and> total a = amount)) \<and>
   (cliff a \<le> duration a \<longrightarrow>
      vestedAmount a now \<noteq> Inl DivisionByZero \<and>
      (duration a = 0 \<longrightarrow>
         cliff a = 0 \<and>
         (now < start a \<and> start a \<le> MAX_UINT256 \<longrightarrow> vestedAmount a now = Inr 0) \<and>
         (start a \<le> now \<and> now \<le> MAX_UINT256 \<longrightarrow> vestedAmount a now = Inr (total a))))"
  by (auto simp: issue_Success vestedAmount_cases)

theorem issued_allocation_never_divides_by_zero_witness:
  "issue 9 7 30 2 0 0 0 ex_vault0 = (Success, issued_state 9 7 30 2 0 0 0 ex_vault0) \<and>
   allocations (issued_state 9 7 30 2 0 0 0 ex_vault0) 7 =
     allocations ex_vault0 7 @ [ex_instant_alloc] \<and>
   cliff ex_instant_alloc \<le> duration ex_instant_alloc \<and> duration ex_instant_alloc = 0 \<and>
   vestedAmount ex_instant_alloc 1 \<noteq> Inl DivisionByZero \<and>
   vestedAmount ex_instant_alloc 1 = Inr 0 \<and>
   vestedAmount ex_instant_alloc 2 = Inr 30 \<and>
   vestedAmount ex_instant_alloc 1000 = Inr 30"
proof -
  have i: "issue 9 7 30 2 0 0 0 ex_vault0 = (Success, issued_state 9 7 30 2 0 0 0 ex_vault0)"
    by (simp add: issue_Success ex_vault0_fields MAX_UINT256_def)
  have a: "allocations (issued_state 9 7 30 2 0 0 0 ex_vault0) 7 =
     allocations ex_vault0 7 @ [ex_instant_alloc]"
    by (simp add: ex_instant_alloc_def)
  have c: "cliff ex_instant_alloc \<le> duration ex_instant_alloc" "duration ex_instant_alloc = 0"
    by (simp_all add: ex_instant_alloc_def)
  from issued_allocation_never_divides_by_zero [of 9 7 30 2 0 0 0 ex_vault0 _ ex_instant_alloc 1]
    c
  have v1: "vestedAmount ex_instant_alloc 1 \<noteq> Inl DivisionByZero"
    "vestedAmount ex_instant_alloc 1 = Inr 0"
    by (simp_all add: ex_instant_alloc_def MAX_UINT256_def)
  from issued_allocation_never_divides_by_zero [of 9 7 30 2 0 0 0 ex_vault0 _ ex_instant_alloc 2]
    c
  have v2: "vestedAmount ex_instant_alloc 2 = Inr 30"
    by (simp_all add: ex_instant_alloc_def MAX_UINT256_def)
  from issued_allocation_never_divides_by_zero [of 9 7 30 2 0 0 0 ex_vault0 _ ex_instant_alloc 1000]
    c
  have v3: "vestedAmount ex_instant_alloc 1000 = Inr 30"
    by (simp_all add: ex_instant_alloc_def MAX_UINT256_def)
  from i a c v1 v2 v3 show ?thesis by simp
qed

subsection \<open>The loop of \<open>releaseAll\<close>\<close>

lemma release_other_index:
  assumes "release b k now s = (Success, s1)" and "j \<noteq> k"
  shows "allocations s1 b ! j = allocations s b ! j"
  using assms by (auto simp: release_Success)

lemma release_same_length:
  assumes "release b k now s = (Success, s1)"
  shows "length (allocations s1 b) = length (allocations s b)"
  using assms by (auto simp: release_Success)

lemma release_this_index:
  assumes "release b k now s = (Success, s1)"
  shows "\<exists>amount>0. releasableAmount (allocations s b ! k) now = Inr amount \<and>
           allocations s1 b ! k =
             (allocations s b ! k)\<lparr>claimed := claimed (allocations s b ! k) + amount\<rparr>"
  using assms by (auto simp: release_Success)

lemma releaseAll_from_step:
  assumes "i < length (allocations s b)" and "release b i now s = (Success, s1)"
  shows "releaseAll_from b now i s = releaseAll_from b now (i + 1) s1"
  using assms by (subst releaseAll_from.simps) simp

lemma releaseAll_from_stop:
  assumes "i < length (allocations s b)" and "release b i now s = (Reverted e, s1)"
  shows "releaseAll_from b now i s = (Reverted e, s1)"
  using assms by (subst releaseAll_from.simps) simp

lemma releaseAll_from_done:
  assumes "\<not> i < length (allocations s b)"
  shows "releaseAll_from b now i s = (Success, s)"
  using assms by (subst releaseAll_from.simps) simp

lemma releaseAll_from_fails_on_zero:
  "i \<le> j \<Longrightarrow> j < length (allocations s b) \<Longrightarrow>
   releasableAmount (allocations s b ! j) now = Inr 0 \<Longrightarrow>
   \<exists>e s1. releaseAll_from b now i s = (Reverted e, s1)"
proof (induction b now i s rule: releaseAll_from.induct)
  case (1 b now i s)
  from "1.prems" have lt: "i < length (allocations s b)" by simp
  show ?case
  proof (cases "release b i now s")
    case (Pair st s1)
    show ?thesis
    proof (cases st)
      case (Reverted e)
      with Pair releaseAll_from_stop [OF lt] show ?thesis by blast
    next
      case Success
      with Pair have rel: "release b i now s = (Success, s1)" by simp
      have ne: "j \<noteq> i"
      proof
        assume "j = i"
        with "1.prems" have "release b i now s = (Reverted NothingToRelease, s)"
          by (simp add: release_zero)
        with rel show False by simp
      qed
      with "1.prems"(1) have le: "i + 1 \<le> j" by simp
      from "1.prems"(2) release_same_length [OF rel]
      have lj: "j < length (allocations s1 b)" by simp
      from "1.prems"(3) release_other_index [OF rel ne]
      have z: "releasableAmount (allocations s1 b ! j) now = Inr 0" by simp
      from "1.IH" [OF lt rel [symmetric] refl le lj z] releaseAll_from_step [OF lt rel]
      show ?thesis by simp
    qed
  qed
qed

lemma releaseAll_from_Success:
  "releaseAll_from b now i s = (Success, s') \<Longrightarrow>
   length (allocations s' b) = length (allocations s b) \<and>
   (\<forall>j<i. allocations s' b ! j = allocations s b ! j) \<and>
   (\<forall>j. i \<le> j \<and> j < length (allocations s b) \<longrightarrow>
      (\<exists>amount>0. releasableAmount (allocations s b ! j) now = Inr amount \<and>
         allocations s' b ! j =
           (allocations s b ! j)\<lparr>claimed := claimed (allocations s b ! j) + amount\<rparr>))"
proof (induction b now i s rule: releaseAll_from.induct)
  case (1 b now i s)
  show ?case
  proof (cases "i < length (allocations s b)")
    case False
    with "1.prems" releaseAll_from_done [OF False, of now] show ?thesis by auto
  next
    case lt: True
    show ?thesis
    proof (cases "release b i now s")
      case (Pair st s1)
      show ?thesis
      proof (cases st)
        case (Reverted e)
        with Pair releaseAll_from_stop [OF lt, of now e s1] "1.prems" show ?thesis by simp
      next
        case Success
        with Pair have rel: "release b i now s = (Success, s1)" by simp
        with "1.prems" releaseAll_from_step [OF lt rel]
        have rest: "releaseAll_from b now (i + 1) s1 = (Success, s')" by simp
        note ih = "1.IH" [OF lt rel [symmetric] refl rest]
        note len = release_same_length [OF rel]
        from ih len have l: "length (allocations s' b) = length (allocations s b)" by simp
        have low: "allocations s' b ! j = allocations s b ! j" if "j < i" for j
        proof -
          from that ih have "allocations s' b ! j = allocations s1 b ! j" by simp
          with that release_other_index [OF rel, of j] show ?thesis by simp
        qed
        have high: "\<exists>amount>0. releasableAmount (allocations s b ! j) now = Inr amount \<and>
            allocations s' b ! j =
              (allocations s b ! j)\<lparr>claimed := claimed (allocations s b ! j) + amount\<rparr>"
          if "i \<le> j" "j < length (allocations s b)" for j
        proof (cases "j = i")
          case True
          from ih have "allocations s' b ! i = allocations s1 b ! i" by simp
          with release_this_index [OF rel] True show ?thesis by simp
        next
          case False
          with that len have "i + 1 \<le> j \<and> j < length (allocations s1 b)" by simp
          with ih have "\<exists>amount>0. releasableAmount (allocations s1 b ! j) now = Inr amount \<and>
            allocations s' b ! j =
              (allocations s1 b ! j)\<lparr>claimed := claimed (allocations s1 b ! j) + amount\<rparr>"
            by blast
          with release_other_index [OF rel False] show ?thesis by simp
        qed
        from l low high show ?thesis by blast
      qed
    qed
  qed
qed

lemma releaseAll_from_status:
  "vault_inv s \<Longrightarrow>
   (\<forall>j. i \<le> j \<and> j < length (allocations s b) \<longrightarrow>
      (\<exists>amount. releasableAmount (allocations s b ! j) now = Inr amount)) \<Longrightarrow>
   fst (releaseAll_from b now i s) =
     (if \<exists>j. i \<le> j \<and> j < length (allocations s b) \<and>
           releasableAmount (allocations s b ! j) now = Inr 0
      then Reverted NothingToRelease else Success)"
proof (induction b now i s rule: releaseAll_from.induct)
  case (1 b now i s)
  show ?case
  proof (cases "i < length (allocations s b)")
    case False
    with releaseAll_from_done [OF False, of now] show ?thesis by auto
  next
    case lt: True
    with "1.prems"(2) obtain amount
      where am: "releasableAmount (allocations s b ! i) now = Inr amount" by blast
    show ?thesis
    proof (cases "amount = 0")
      case True
      with am lt have "release b i now s = (Reverted NothingToRelease, s)"
        by (simp add: release_zero)
      from releaseAll_from_stop [OF lt this] lt am True show ?thesis by auto
    next
      case False
      then have pos: "0 < amount" by simp
      from release_succeeds [OF "1.prems"(1) lt am pos]
      obtain s1 where rel: "release b i now s = (Success, s1)" by blast
      note len = release_same_length [OF rel]
      have inv1: "vault_inv s1" using "1.prems"(1) rel by (rule release_vault_inv)
      have same: "allocations s1 b ! j = allocations s b ! j" if "i + 1 \<le> j" for j
        using release_other_index [OF rel, of j] that by simp
      have def1: "\<forall>j. i + 1 \<le> j \<and> j < length (allocations s1 b) \<longrightarrow>
          (\<exists>amount. releasableAmount (allocations s1 b ! j) now = Inr amount)"
        using "1.prems"(2) len same by simp
      have iff: "(\<exists>j. i + 1 \<le> j \<and> j < length (allocations s1 b) \<and>
             releasableAmount (allocations s1 b ! j) now = Inr 0) \<longleftrightarrow>
           (\<exists>j. i \<le> j \<and> j < length (allocations s b) \<and>
             releasableAmount (allocations s b ! j) now = Inr 0)"
      proof
        assume "\<exists>j. i + 1 \<le> j \<and> j < length (allocations s1 b) \<and>
             releasableAmount (allocations s1 b ! j) now = Inr 0"
        then obtain j where j: "i + 1 \<le> j" "j < length (allocations s1 b)"
          "releasableAmount (allocations s1 b ! j) now = Inr 0" by blast
        with len same [OF j(1)] have "i \<le> j \<and> j < length (allocations s b) \<and>
             releasableAmount (allocations s b ! j) now = Inr 0" by simp
        then show "\<exists>j. i \<le> j \<and> j < length (allocations s b) \<and>
             releasableAmount (allocations s b ! j) now = Inr 0" ..
      next
        assume "\<exists>j. i \<le> j \<and> j < length (allocations s b) \<and>
             releasableAmount (allocations s b ! j) now = Inr 0"
        then obtain j where j: "i \<le> j" "j < length (allocations s b)"
          "releasableAmount (allocations s b ! j) now = Inr 0" by blast
        from j(3) am False have "j \<noteq> i" by auto
        with j(1) have le: "i + 1 \<le> j" by simp
        with j len same [OF le] have "i + 1 \<le> j \<and> j < length (allocations s1 b) \<and>
             releasableAmount (allocations s1 b ! j) now = Inr 0" by simp
        then show "\<exists>j. i + 1 \<le> j \<and> j < length (allocations s1 b) \<and>
             releasableAmount (allocations s1 b ! j) now = Inr 0" ..
      qed
      from "1.IH" [OF lt rel [symmetric] refl inv1 def1] iff releaseAll_from_step [OF lt rel]
      show ?thesis by simp
    qed
  qed
qed

subsection \<open>A successful \<open>releaseAll\<close> as a run of releases\<close>

lemma releaseAll_from_run:
  "releaseAll_from b now i s = (Success, s') \<Longrightarrow>
   s' = foldl (\<lambda>st j. released_state b j (payout (allocations s b ! j) now) st) s
          [i..<length (allocations s b)]"
proof (induction b now i s rule: releaseAll_from.induct)
  case (1 b now i s)
  let ?n = "length (allocations s b)"
  show ?case
  proof (cases "i < ?n")
    case False
    with "1.prems" releaseAll_from_done [OF False, of now] show ?thesis by simp
  next
    case lt: True
    show ?thesis
    proof (cases "release b i now s")
      case (Pair st s1)
      show ?thesis
      proof (cases st)
        case (Reverted e)
        with Pair releaseAll_from_stop [OF lt, of now e s1] "1.prems" show ?thesis by simp
      next
        case Success
        with Pair have rel: "release b i now s = (Success, s1)" by simp
        with "1.prems" releaseAll_from_step [OF lt rel]
        have rest: "releaseAll_from b now (i + 1) s1 = (Success, s')" by simp
        note len = release_same_length [OF rel]
        from rel obtain amount
          where am: "releasableAmount (allocations s b ! i) now = Inr amount"
            and s1: "s1 = released_state b i amount s"
          by (auto simp: release_Success)
        from am have p: "payout (allocations s b ! i) now = amount"
          by (simp add: payout_def)
        from "1.IH" [OF lt rel [symmetric] refl rest] len
        have "s' = foldl (\<lambda>st j. released_state b j (payout (allocations s1 b ! j) now) st) s1
            [Suc i..<?n]" by simp
        also have "\<dots> = foldl (\<lambda>st j. released_state b j (payout (allocations s b ! j) now) st) s1
            [Suc i..<?n]"
        proof (rule foldl_cong [OF refl refl])
          fix st j
          assume "j \<in> set [Suc i..<?n]"
          then have "j \<noteq> i" by simp
          from release_other_index [OF rel this]
          show "released_state b j (payout (allocations s1 b ! j) now) st =
              released_state b j (payout (allocations s b ! j) now) st" by simp
        qed
        finally show ?thesis
          using lt by (simp add: upt_conv_Cons s1 p)
      qed
    qed
  qed
qed

lemma releaseAll_run:
  assumes "releaseAll b now s = (Success, s')"
  shows "s' = released_upto b now s (length (allocations s b))"
  using releaseAll_from_run [of b now 0 s s'] assms
  by (simp add: releaseAll_def released_upto_def)

text \<open>What a run of releases leaves: the storage, the log of calls and the balances.\<close>

lemma released_upto_Suc:
  "released_upto b now s (Suc k) =
     released_state b k (payout (allocations s b ! k) now) (released_upto b now s k)"
  by (simp add: released_upto_def)

lemma released_upto_0 [simp]: "released_upto b now s 0 = s"
  by (simp add: released_upto_def)

lemma released_upto_fixed [simp]:
  "self (released_upto b now s k) = self s"
  "owner (released_upto b now s k) = owner s"
  by (induction k) (simp_all add: released_upto_Suc)

lemma released_upto_others:
  "b' \<noteq> b \<Longrightarrow> allocations (released_upto b now s k) b' = allocations s b'"
  by (induction k) (simp_all add: released_upto_Suc)

lemma released_upto_length [simp]:
  "length (allocations (released_upto b now s k) b) = length (allocations s b)"
  by (induction k) (simp_all add: released_upto_Suc)

lemma released_upto_nth:
  "j < length (allocations s b) \<Longrightarrow>
   allocations (released_upto b now s k) b ! j =
     (if j < k
      then (allocations s b ! j)
        \<lparr>claimed := claimed (allocations s b ! j) + payout (allocations s b ! j) now\<rparr>
      else allocations s b ! j)"
proof (induction k)
  case 0
  show ?case by simp
next
  case (Suc k)
  then show ?case
    by (auto simp: released_upto_Suc nth_list_update less_Suc_eq)
qed

lemma released_upto_calls:
  "calls (released_upto b now s k) =
     calls s @ map (\<lambda>i. CallTransfer b (payout (allocations s b ! i) now)
                          (allocations (released_upto b now s (Suc i)))) [0..<k]"
proof (induction k)
  case 0
  show ?case by simp
next
  case (Suc k)
  have "calls (released_upto b now s (Suc k)) =
      calls (released_upto b now s k) @
      [CallTransfer b (payout (allocations s b ! k) now)
         (allocations (released_upto b now s (Suc k)))]"
    by (simp add: released_upto_Suc) (simp add: released_state_def Let_def)
  with Suc show ?case by simp
qed

lemma released_upto_balances:
  assumes "b \<noteq> self s"
  shows "custody (released_upto b now s k) =
           custody s - (\<Sum>i<k. payout (allocations s b ! i) now)"
    and "balanceOf (token (released_upto b now s k)) b =
           balanceOf (token s) b + (\<Sum>i<k. payout (allocations s b ! i) now)"
    and "h \<noteq> b \<Longrightarrow> h \<noteq> self s \<Longrightarrow>
           balanceOf (token (released_upto b now s k)) h = balanceOf (token s) h"
  using assms
  by (induction k)
    (simp_all add: released_upto_Suc custody_released_state custody_def moved_apart)

subsection \<open>Claims on \<open>releaseAll\<close>\<close>

lemma transact_fst_Reverted:
  "fst (f s) = Reverted e \<Longrightarrow> transact f s = (Reverted e, s)"
  by (cases "f s") (simp add: transact_def)

text \<open>
  C1, as the specification states it: \<open>releaseAll\<close> skips an index whose releasable
  amount is 0 and releases the others. The code calls \<open>release\<close> without catching its
  revert: at time 12 the first allocation of the beneficiary has 30 to release and the
  second, which starts at 12, has 0; \<open>releaseAll\<close> reverts with \<open>NothingToRelease\<close>
  and the state is as before, the 30 of the first allocation not released.
\<close>

theorem releaseAll_skip_counterexample:
  "reachable ex_vault2 \<and>
   releasableAmount (allocations ex_vault2 7 ! 0) 12 = Inr 30 \<and>
   releasableAmount (allocations ex_vault2 7 ! 1) 12 = Inr 0 \<and>
   transact (releaseAll 7 12) ex_vault2 = (Reverted NothingToRelease, ex_vault2) \<and>
   claimed (allocations ex_vault2 7 ! 0) = 0"
proof -
  have inv: "vault_inv ex_vault2"
    using reachable_ex_vault2 by (rule reachable_vault_inv)
  have d: "\<forall>j. 0 \<le> j \<and> j < length (allocations ex_vault2 7) \<longrightarrow>
      (\<exists>amount. releasableAmount (allocations ex_vault2 7 ! j) 12 = Inr amount)"
  proof (intro allI impI)
    fix j :: nat
    assume "0 \<le> j \<and> j < length (allocations ex_vault2 7)"
    then have "j = 0 \<or> j = 1" by (auto simp: ex_vault2_fields)
    with ex_vault2_releasable(1,2)
    show "\<exists>amount. releasableAmount (allocations ex_vault2 7 ! j) 12 = Inr amount"
      by auto
  qed
  have z: "\<exists>j. 0 \<le> j \<and> j < length (allocations ex_vault2 7) \<and>
      releasableAmount (allocations ex_vault2 7 ! j) 12 = Inr 0"
    using ex_vault2_releasable(2) by (intro exI [of _ 1]) (simp add: ex_vault2_fields)
  from releaseAll_from_status [OF inv d] z
  have "fst (releaseAll 7 12 ex_vault2) = Reverted NothingToRelease"
    by (simp add: releaseAll_def)
  then have "transact (releaseAll 7 12) ex_vault2 = (Reverted NothingToRelease, ex_vault2)"
    by (rule transact_fst_Reverted)
  with reachable_ex_vault2 ex_vault2_releasable(1,2) show ?thesis
    by (simp add: ex_vault2_fields)
qed

text \<open>
  C1, amended: \<open>releaseAll\<close> calls \<open>release\<close> on the indices of the beneficiary's
  sequence in ascending order and does not catch a revert. When some index has a
  releasable amount of 0 the whole call fails and leaves the state unchanged, nothing
  being released; in a reachable state where every releasable amount is defined, the
  failure is \<open>NothingToRelease\<close>, and without such an index the call succeeds. When
  \<open>releaseAll\<close> succeeds, every index had a positive releasable amount and was released
  by exactly that amount: the state is the one the releases of the indices
  \<open>0, 1, ...\<close> in this order lead to, \<open>claimed\<close> of every allocation has grown by
  its amount, the sequence keeps its length and the other sequences are untouched, one
  transfer to the beneficiary was made per index, in ascending order, each of that
  index's amount and with the storage already updated for it, and for a beneficiary
  other than the vault the balance in custody has fallen and the beneficiary's has
  risen by the sum of the amounts.
\<close>

theorem releaseAll_all_or_nothing:
  "((\<exists>i<length (allocations s b). releasableAmount (allocations s b ! i) now = Inr 0) \<longrightarrow>
      (\<exists>e. transact (releaseAll b now) s = (Reverted e, s))) \<and>
   (reachable s \<and>
    (\<forall>i<length (allocations s b).
       \<exists>amount. releasableAmount (allocations s b ! i) now = Inr amount) \<longrightarrow>
      (if \<exists>i<length (allocations s b). releasableAmount (allocations s b ! i) now = Inr 0
       then transact (releaseAll b now) s = (Reverted NothingToRelease, s)
       else \<exists>s'. transact (releaseAll b now) s = (Success, s'))) \<and>
   (\<forall>s'. releaseAll b now s = (Success, s') \<longrightarrow>
      length (allocations s' b) = length (allocations s b) \<and>
      (\<forall>i<length (allocations s b).
         \<exists>amount>0. releasableAmount (allocations s b ! i) now = Inr amount \<and>
           payout (allocations s b ! i) now = amount \<and>
           allocations s' b ! i =
             (allocations s b ! i)\<lparr>claimed := claimed (allocations s b ! i) + amount\<rparr>) \<and>
      (\<forall>b'. b' \<noteq> b \<longrightarrow> allocations s' b' = allocations s b') \<and>
      s' = released_upto b now s (length (allocations s b)) \<and>
      calls s' = calls s @
        map (\<lambda>i. CallTransfer b (payout (allocations s b ! i) now)
                   (allocations (released_upto b now s (Suc i))))
          [0..<length (allocations s b)] \<and>
      (b \<noteq> self s \<longrightarrow>
         custody s' =
           custody s - (\<Sum>i<length (allocations s b). payout (allocations s b ! i) now) \<and>
         balanceOf (token s') b =
           balanceOf (token s) b +
           (\<Sum>i<length (allocations s b). payout (allocations s b ! i) now) \<and>
         (\<forall>h. h \<noteq> b \<and> h \<noteq> self s \<longrightarrow>
            balanceOf (token s') h = balanceOf (token s) h)))"
proof -
  have zero: "\<exists>e. transact (releaseAll b now) s = (Reverted e, s)"
    if "\<exists>i<length (allocations s b). releasableAmount (allocations s b ! i) now = Inr 0"
  proof -
    from that obtain i where "0 \<le> i" "i < length (allocations s b)"
      "releasableAmount (allocations s b ! i) now = Inr 0" by auto
    then have "\<exists>e s1. releaseAll_from b now 0 s = (Reverted e, s1)"
      by (rule releaseAll_from_fails_on_zero)
    then show ?thesis
      by (auto simp: releaseAll_def transact_def)
  qed
  have decided: "if \<exists>i<length (allocations s b). releasableAmount (allocations s b ! i) now = Inr 0
       then transact (releaseAll b now) s = (Reverted NothingToRelease, s)
       else \<exists>s'. transact (releaseAll b now) s = (Success, s')"
    if a: "reachable s \<and>
      (\<forall>i<length (allocations s b).
         \<exists>amount. releasableAmount (allocations s b ! i) now = Inr amount)"
  proof -
    from a have inv: "vault_inv s" by (simp add: reachable_vault_inv)
    from a have d: "\<forall>j. 0 \<le> j \<and> j < length (allocations s b) \<longrightarrow>
        (\<exists>amount. releasableAmount (allocations s b ! j) now = Inr amount)" by simp
    note st = releaseAll_from_status [OF inv d]
    show ?thesis
    proof (cases "\<exists>i<length (allocations s b).
        releasableAmount (allocations s b ! i) now = Inr 0")
      case True
      with st have "fst (releaseAll b now s) = Reverted NothingToRelease"
        by (auto simp: releaseAll_def)
      then have "transact (releaseAll b now) s = (Reverted NothingToRelease, s)"
        by (rule transact_fst_Reverted)
      then show ?thesis unfolding if_P [OF True] .
    next
      case False
      with st have "fst (releaseAll b now s) = Success"
        by (auto simp: releaseAll_def)
      then have "\<exists>s'. transact (releaseAll b now) s = (Success, s')"
        by (cases "releaseAll b now s") simp
      then show ?thesis unfolding if_not_P [OF False] .
    qed
  qed
  have succ: "length (allocations s' b) = length (allocations s b) \<and>
      (\<forall>i<length (allocations s b).
         \<exists>amount>0. releasableAmount (allocations s b ! i) now = Inr amount \<and>
           payout (allocations s b ! i) now = amount \<and>
           allocations s' b ! i =
             (allocations s b ! i)\<lparr>claimed := claimed (allocations s b ! i) + amount\<rparr>) \<and>
      (\<forall>b'. b' \<noteq> b \<longrightarrow> allocations s' b' = allocations s b') \<and>
      s' = released_upto b now s (length (allocations s b)) \<and>
      calls s' = calls s @
        map (\<lambda>i. CallTransfer b (payout (allocations s b ! i) now)
                   (allocations (released_upto b now s (Suc i))))
          [0..<length (allocations s b)] \<and>
      (b \<noteq> self s \<longrightarrow>
         custody s' =
           custody s - (\<Sum>i<length (allocations s b). payout (allocations s b ! i) now) \<and>
         balanceOf (token s') b =
           balanceOf (token s) b +
           (\<Sum>i<length (allocations s b). payout (allocations s b ! i) now) \<and>
         (\<forall>h. h \<noteq> b \<and> h \<noteq> self s \<longrightarrow>
            balanceOf (token s') h = balanceOf (token s) h))"
    if ok: "releaseAll b now s = (Success, s')" for s'
  proof -
    from ok have "releaseAll_from b now 0 s = (Success, s')" by (simp add: releaseAll_def)
    note r = releaseAll_from_Success [OF this]
    have each: "\<forall>i<length (allocations s b).
         \<exists>amount>0. releasableAmount (allocations s b ! i) now = Inr amount \<and>
           payout (allocations s b ! i) now = amount \<and>
           allocations s' b ! i =
             (allocations s b ! i)\<lparr>claimed := claimed (allocations s b ! i) + amount\<rparr>"
    proof (intro allI impI)
      fix i
      assume "i < length (allocations s b)"
      with r obtain amount where "0 < amount"
        "releasableAmount (allocations s b ! i) now = Inr amount"
        "allocations s' b ! i =
           (allocations s b ! i)\<lparr>claimed := claimed (allocations s b ! i) + amount\<rparr>"
        by auto
      then show "\<exists>amount>0. releasableAmount (allocations s b ! i) now = Inr amount \<and>
           payout (allocations s b ! i) now = amount \<and>
           allocations s' b ! i =
             (allocations s b ! i)\<lparr>claimed := claimed (allocations s b ! i) + amount\<rparr>"
        by (auto simp: payout_def)
    qed
    note run = releaseAll_run [OF ok]
    from r have len: "length (allocations s' b) = length (allocations s b)" by simp
    have oth: "\<forall>b'. b' \<noteq> b \<longrightarrow> allocations s' b' = allocations s b'"
      by (simp add: run released_upto_others)
    have cl: "calls s' = calls s @
        map (\<lambda>i. CallTransfer b (payout (allocations s b ! i) now)
                   (allocations (released_upto b now s (Suc i))))
          [0..<length (allocations s b)]"
      unfolding run by (rule released_upto_calls)
    have bal: "b \<noteq> self s \<longrightarrow>
         custody s' =
           custody s - (\<Sum>i<length (allocations s b). payout (allocations s b ! i) now) \<and>
         balanceOf (token s') b =
           balanceOf (token s) b +
           (\<Sum>i<length (allocations s b). payout (allocations s b ! i) now) \<and>
         (\<forall>h. h \<noteq> b \<and> h \<noteq> self s \<longrightarrow>
            balanceOf (token s') h = balanceOf (token s) h)"
      unfolding run by (simp add: released_upto_balances)
    from len each oth run cl bal show ?thesis by blast
  qed
  from zero decided succ show ?thesis by blast
qed

theorem releaseAll_all_or_nothing_witness:
  "reachable ex_vault2 \<and> (1::nat) < length (allocations ex_vault2 7) \<and>
   releasableAmount (allocations ex_vault2 7 ! 1) 12 = Inr 0 \<and>
   (\<exists>e. transact (releaseAll 7 12) ex_vault2 = (Reverted e, ex_vault2)) \<and>
   releasableAmount (allocations ex_vault2 7 ! 0) 22 = Inr 30 \<and>
   releasableAmount (allocations ex_vault2 7 ! 1) 22 = Inr 30 \<and>
   (\<exists>s'. releaseAll 7 22 ex_vault2 = (Success, s') \<and>
      length (allocations s' 7) = 2 \<and>
      claimed (allocations s' 7 ! 0) = 30 \<and> claimed (allocations s' 7 ! 1) = 30 \<and>
      length (calls s') = length (calls ex_vault2) + 2 \<and>
      custody s' = 0 \<and> balanceOf (token s') 7 = 1060)"
proof -
  have r: "reachable ex_vault2" by (rule reachable_ex_vault2)
  have l: "(1::nat) < length (allocations ex_vault2 7)" by (simp add: ex_vault2_fields)
  have len: "length (allocations ex_vault2 7) = 2" by (simp add: ex_vault2_fields)
  have idx: "i = 0 \<or> i = 1" if "i < length (allocations ex_vault2 7)" for i
    using that by (auto simp: len)
  note z = ex_vault2_releasable(2)
  note at12 = releaseAll_all_or_nothing [of ex_vault2 7 12]
  note at22 = releaseAll_all_or_nothing [of ex_vault2 7 22]
  from l z have "\<exists>i<length (allocations ex_vault2 7).
      releasableAmount (allocations ex_vault2 7 ! i) 12 = Inr 0" by blast
  with at12 [THEN conjunct1]
  have f: "\<exists>e. transact (releaseAll 7 12) ex_vault2 = (Reverted e, ex_vault2)" by (rule mp)
  have d: "\<forall>i<length (allocations ex_vault2 7).
      \<exists>amount. releasableAmount (allocations ex_vault2 7 ! i) 22 = Inr amount"
  proof (intro allI impI)
    fix i
    assume "i < length (allocations ex_vault2 7)"
    from idx [OF this] ex_vault2_releasable(3,4)
    show "\<exists>amount. releasableAmount (allocations ex_vault2 7 ! i) 22 = Inr amount"
      by auto
  qed
  have nz: "\<not> (\<exists>i<length (allocations ex_vault2 7).
      releasableAmount (allocations ex_vault2 7 ! i) 22 = Inr 0)"
  proof
    assume "\<exists>i<length (allocations ex_vault2 7).
      releasableAmount (allocations ex_vault2 7 ! i) 22 = Inr 0"
    then obtain i where i: "i < length (allocations ex_vault2 7)"
      "releasableAmount (allocations ex_vault2 7 ! i) 22 = Inr 0" by blast
    from idx [OF i(1)] i(2) ex_vault2_releasable(3,4) show False by auto
  qed
  from r d have "reachable ex_vault2 \<and> (\<forall>i<length (allocations ex_vault2 7).
      \<exists>amount. releasableAmount (allocations ex_vault2 7 ! i) 22 = Inr amount)" ..
  with at22 [THEN conjunct2, THEN conjunct1]
  have "if \<exists>i<length (allocations ex_vault2 7).
        releasableAmount (allocations ex_vault2 7 ! i) 22 = Inr 0
      then transact (releaseAll 7 22) ex_vault2 = (Reverted NothingToRelease, ex_vault2)
      else \<exists>s'. transact (releaseAll 7 22) ex_vault2 = (Success, s')"
    by (rule mp)
  then have "\<exists>s'. transact (releaseAll 7 22) ex_vault2 = (Success, s')"
    unfolding if_not_P [OF nz] .
  then obtain s' where s': "releaseAll 7 22 ex_vault2 = (Success, s')" by auto
  note post = at22 [THEN conjunct2, THEN conjunct2, THEN spec, THEN mp, OF s']
  note p_len = post [THEN conjunct1]
  note p_each = post [THEN conjunct2, THEN conjunct1]
  note p_calls = post [THEN conjunct2, THEN conjunct2, THEN conjunct2, THEN conjunct2,
      THEN conjunct1]
  note p_bal = post [THEN conjunct2, THEN conjunct2, THEN conjunct2, THEN conjunct2,
      THEN conjunct2]
  have p0: "payout (allocations ex_vault2 7 ! 0) 22 = 30"
    using ex_vault2_releasable(3) by (simp add: payout_def)
  have p1: "payout (allocations ex_vault2 7 ! Suc 0) 22 = 30"
    using ex_vault2_releasable(4) by (simp add: payout_def)
  have total: "(\<Sum>i<length (allocations ex_vault2 7). payout (allocations ex_vault2 7 ! i) 22)
      = 60"
    by (simp add: len numeral_2_eq_2 p0 p1)
  from p_len len have a: "length (allocations s' 7) = 2" by simp
  from p_each len ex_vault2_releasable(3)
  have c0: "claimed (allocations s' 7 ! 0) = 30"
    by (auto simp: ex_vault2_fields)
  from p_each l ex_vault2_releasable(4)
  have c1: "claimed (allocations s' 7 ! 1) = 30"
    by (auto simp: ex_vault2_fields)
  from p_calls have cs: "length (calls s') = length (calls ex_vault2) + 2"
    by (simp add: len)
  have ne: "7 \<noteq> self ex_vault2" by (simp add: ex_vault2_fields)
  from p_bal ne have "custody s' = custody ex_vault2 -
        (\<Sum>i<length (allocations ex_vault2 7). payout (allocations ex_vault2 7 ! i) 22)"
    and "balanceOf (token s') 7 = balanceOf (token ex_vault2) 7 +
        (\<Sum>i<length (allocations ex_vault2 7). payout (allocations ex_vault2 7 ! i) 22)"
    by blast+
  then have cu: "custody s' = 0" and bb: "balanceOf (token s') 7 = 1060"
    unfolding total by (simp_all add: ex_vault2_fields)
  from s' a c0 c1 cs cu bb
  have "\<exists>s'. releaseAll 7 22 ex_vault2 = (Success, s') \<and>
      length (allocations s' 7) = 2 \<and>
      claimed (allocations s' 7 ! 0) = 30 \<and> claimed (allocations s' 7 ! 1) = 30 \<and>
      length (calls s') = length (calls ex_vault2) + 2 \<and>
      custody s' = 0 \<and> balanceOf (token s') 7 = 1060"
    by blast
  with r l z f ex_vault2_releasable(3,4) show ?thesis by blast
qed

end
